theory Spec2Isabelle
  imports Complex_Main "HOL-Library.Sublist"
begin

section \<open>Strings\<close>

text \<open>
  A Python \<open>str\<close> is a sequence of Unicode code points, and every operation the filler
  uses (\<open>len\<close>, \<open>strip\<close>, \<open>in\<close>, the regular expressions, \<open>SequenceMatcher\<close>) counts
  code points. A string is therefore a list of code points (\<open>ord\<close> of each character);
  \<open>ustr\<close> embeds an ASCII literal. The placeholder dash of the source is the single
  code point U+2014.
\<close>

type_synonym pystr = "int list"

definition ustr :: "string \<Rightarrow> pystr" where
  "ustr s = map of_char s"

definition EM_DASH :: pystr where
  "EM_DASH = [8212]"

definition EN_DASH :: pystr where
  "EN_DASH = [8211]"

definition HYPHEN :: pystr where
  "HYPHEN = [45]"

text \<open>
  \<open>str.isspace\<close>, which is also the class \<open>\s\<close> of a \<open>str\<close> pattern and the set
  \<open>str.strip()\<close> removes: the code points CPython classifies as whitespace.
\<close>

definition isspace :: "int \<Rightarrow> bool" where
  "isspace c \<longleftrightarrow> c \<in> set [9, 10, 11, 12, 13, 28, 29, 30, 31, 32, 133, 160, 5760,
      8192, 8193, 8194, 8195, 8196, 8197, 8198, 8199, 8200, 8201, 8202,
      8232, 8233, 8239, 8287, 12288]"

definition lstrip :: "pystr \<Rightarrow> pystr" where
  "lstrip s = dropWhile isspace s"

definition rstrip :: "pystr \<Rightarrow> pystr" where
  "rstrip s = rev (dropWhile isspace (rev s))"

definition strip :: "pystr \<Rightarrow> pystr" where
  "strip s = lstrip (rstrip s)"

text \<open>\<open>x in s\<close> on strings: \<open>x\<close> occurs in \<open>s\<close> as a contiguous substring.\<close>

fun str_in :: "pystr \<Rightarrow> pystr \<Rightarrow> bool" where
  "str_in x [] \<longleftrightarrow> x = []"
| "str_in x (c # cs) \<longleftrightarrow> prefix x (c # cs) \<or> str_in x cs"

text \<open>
  \<open>original.split(":", 1)\<close> when \<open>":" in original\<close>: the text before the first colon and
  the text after it.
\<close>

definition COLON :: int where
  "COLON = 58"

definition split_colon :: "pystr \<Rightarrow> pystr \<times> pystr" where
  "split_colon s = (takeWhile (\<lambda>c. c \<noteq> COLON) s, tl (dropWhile (\<lambda>c. c \<noteq> COLON) s))"

section \<open>The regular expressions\<close>

text \<open>
  \<open>WS_RE = re.compile(r"\s+")\<close> and \<open>WS_RE.sub(" ", s)\<close>: every maximal run of
  whitespace becomes one space (the replacement is a constant without escapes).
\<close>

function WS_RE_sub_space :: "pystr \<Rightarrow> pystr" where
  "WS_RE_sub_space [] = []"
| "WS_RE_sub_space (c # cs) =
     (if isspace c then 32 # WS_RE_sub_space (dropWhile isspace cs)
      else c # WS_RE_sub_space cs)"
  by pat_completeness auto
termination
  by (relation "measure length") (auto simp: length_dropWhile_le less_Suc_eq_le)

text \<open>
  \<open>UNDERSCORE_RE = re.compile(r"_{3,}")\<close>. \<open>UNDERSCORE_RE_search\<close> is the leftmost
  match: the engine tries each start position in turn, and at a position the greedy
  quantifier takes every underscore that follows. The result is the text before the
  match, the match and the text after it.
\<close>

definition UNDERSCORE :: int where
  "UNDERSCORE = 95"

fun UNDERSCORE_RE_search :: "pystr \<Rightarrow> (pystr \<times> pystr \<times> pystr) option" where
  "UNDERSCORE_RE_search [] = None"
| "UNDERSCORE_RE_search (c # cs) =
     (let run = takeWhile (\<lambda>d. d = UNDERSCORE) (c # cs) in
      if 3 \<le> length run then Some ([], run, drop (length run) (c # cs))
      else map_option (\<lambda>(before, m, after). (c # before, m, after))
             (UNDERSCORE_RE_search cs))"

subsection \<open>Replacement templates\<close>

text \<open>
  \<open>pattern.sub(repl, text, count=1)\<close> with a string \<open>repl\<close> does not insert \<open>repl\<close>
  as it is: \<open>repl\<close> is a template, in which a backslash starts an escape
  (\<open>parse_template\<close> of CPython's \<open>re\<close> module). The tokenizer reads a backslash together
  with the character after it and fails on a backslash at the end. For a pattern
  without groups, as \<open>UNDERSCORE_RE\<close>, an escape is
  \<^item> \<open>\g<0>\<close> (any number of zeros): the whole match; every other \<open>\g\<close> fails;
  \<^item> \<open>\0\<close> with up to two more octal digits, or three octal digits: the character
    with that code (above \<open>0o377\<close> fails);
  \<^item> \<open>\1\<close> to \<open>\99\<close> otherwise: a group the pattern does not have, which fails;
  \<^item> \<open>\a \b \f \n \r \t \v \\\<close>: the control character, or one backslash;
  \<^item> a backslash before any other ASCII letter fails;
  \<^item> a backslash before anything else stays, with that character.
  The group name of \<open>\g<...>\<close> follows CPython 3.12; older versions also accept a few
  deprecated spellings of group 0 (a sign, surrounding blanks).

  \<open>TemplateError\<close> is the exception a malformed template raises (\<open>re.error\<close>, or
  \<open>IndexError\<close> for a group name the pattern does not have); the other errors are those
  of the fill functions below and of the assignment of a text.
\<close>

datatype error = TemplateError | IndexError | AssertionError | AttributeError | ValueError

datatype token = Lit int | Esc int

fun tokenize :: "pystr \<Rightarrow> error + token list" where
  "tokenize [] = Inr []"
| "tokenize (c # cs) =
     (if c = 92 then
        (case cs of
           [] \<Rightarrow> Inl TemplateError
         | d # ds \<Rightarrow> (case tokenize ds of Inl e \<Rightarrow> Inl e | Inr ts \<Rightarrow> Inr (Esc d # ts)))
      else (case tokenize cs of Inl e \<Rightarrow> Inl e | Inr ts \<Rightarrow> Inr (Lit c # ts)))"

definition is_digit :: "int \<Rightarrow> bool" where
  "is_digit c \<longleftrightarrow> 48 \<le> c \<and> c \<le> 57"

definition is_octdigit :: "int \<Rightarrow> bool" where
  "is_octdigit c \<longleftrightarrow> 48 \<le> c \<and> c \<le> 55"

definition is_asciiletter :: "int \<Rightarrow> bool" where
  "is_asciiletter c \<longleftrightarrow> (97 \<le> c \<and> c \<le> 122) \<or> (65 \<le> c \<and> c \<le> 90)"

fun lit_octdigit :: "token \<Rightarrow> bool" where
  "lit_octdigit (Lit d) = is_octdigit d"
| "lit_octdigit (Esc d) = False"

fun lit_digit :: "token \<Rightarrow> bool" where
  "lit_digit (Lit d) = is_digit d"
| "lit_digit (Esc d) = False"

fun digit_val :: "token \<Rightarrow> int" where
  "digit_val (Lit d) = d - 48"
| "digit_val (Esc d) = 0"

text \<open>\<open>ESCAPES\<close> of the parser: the escapes that stand for one character.\<close>

definition ESCAPES :: "int \<rightharpoonup> int" where
  "ESCAPES = [97 \<mapsto> 7, 98 \<mapsto> 8, 102 \<mapsto> 12, 110 \<mapsto> 10, 114 \<mapsto> 13, 116 \<mapsto> 9,
              118 \<mapsto> 11, 92 \<mapsto> 92]"

text \<open>
  \<open>group_name ts\<close> reads the tokens of a group name up to the closing \<open>>\<close>
  (\<open>getuntil\<close>): the name and the tokens after it, or nothing when \<open>>\<close> is missing.
\<close>

fun group_name :: "token list \<Rightarrow> (token list \<times> token list) option" where
  "group_name [] = None"
| "group_name (t # ts) =
     (if t = Lit 62 then Some ([], ts)
      else map_option (\<lambda>(name, rest). (t # name, rest)) (group_name ts))"

text \<open>
  \<open>expand m ts\<close> is the replacement text the template tokens \<open>ts\<close> stand for when the
  match is \<open>m\<close>.
\<close>

function expand :: "pystr \<Rightarrow> token list \<Rightarrow> error + pystr" where
  "expand m [] = Inr []"
| "expand m (Lit c # ts) =
     (case expand m ts of Inl e \<Rightarrow> Inl e | Inr r \<Rightarrow> Inr (c # r))"
| "expand m (Esc c # ts) =
     (if c = 103 then
        (case ts of
           [] \<Rightarrow> Inl TemplateError
         | t # ts' \<Rightarrow>
             if t \<noteq> Lit 60 then Inl TemplateError
             else (case group_name ts' of
                     None \<Rightarrow> Inl TemplateError
                   | Some (name, rest) \<Rightarrow>
                       if name = [] then Inl TemplateError
                       else if \<not> list_all lit_digit name then Inl TemplateError
                       else if \<not> list_all (\<lambda>t. t = Lit 48) name then Inl TemplateError
                       else (case expand m (drop (Suc (length name)) ts') of
                               Inl e \<Rightarrow> Inl e | Inr r \<Rightarrow> Inr (m @ r))))
      else if c = 48 then
        (let ds = takeWhile lit_octdigit (take 2 ts) in
         case expand m (drop (length ds) ts) of
           Inl e \<Rightarrow> Inl e
         | Inr r \<Rightarrow> Inr (foldl (\<lambda>v t. 8 * v + digit_val t) 0 ds # r))
      else if is_digit c then
        (if is_octdigit c \<and> list_all lit_octdigit (take 2 ts) \<and> 2 \<le> length ts then
           (let v = foldl (\<lambda>v t. 8 * v + digit_val t) (c - 48) (take 2 ts) in
            if v > 255 then Inl TemplateError
            else (case expand m (drop 2 ts) of Inl e \<Rightarrow> Inl e | Inr r \<Rightarrow> Inr (v # r)))
         else Inl TemplateError)
      else
        (case ESCAPES c of
           Some v \<Rightarrow> (case expand m ts of Inl e \<Rightarrow> Inl e | Inr r \<Rightarrow> Inr (v # r))
         | None \<Rightarrow>
             if is_asciiletter c then Inl TemplateError
             else (case expand m ts of Inl e \<Rightarrow> Inl e | Inr r \<Rightarrow> Inr (92 # c # r))))"
  by pat_completeness auto
termination
  by (relation "measure (\<lambda>(m, ts). length ts)") auto

text \<open>
  \<open>UNDERSCORE_RE.sub(repl, text, count=1)\<close>: the leftmost match is replaced by the
  expansion of the template; a text without a match is returned as it is. The template
  is parsed whether or not there is a match.
\<close>

definition UNDERSCORE_RE_sub1 :: "pystr \<Rightarrow> pystr \<Rightarrow> error + pystr" where
  "UNDERSCORE_RE_sub1 repl text =
     (case tokenize repl of
        Inl e \<Rightarrow> Inl e
      | Inr ts \<Rightarrow>
          (case UNDERSCORE_RE_search text of
             None \<Rightarrow> (case expand [] ts of Inl e \<Rightarrow> Inl e | Inr r \<Rightarrow> Inr text)
           | Some (before, m, after) \<Rightarrow>
               (case expand m ts of Inl e \<Rightarrow> Inl e | Inr r \<Rightarrow> Inr (before @ r @ after))))"

section \<open>Filling underscores\<close>

text \<open>
  \<^verbatim>\<open>
  def replace_underscores(text: str, value: str) -> str:
      if UNDERSCORE_RE.search(text):
          return UNDERSCORE_RE.sub(value if value else "-", text, count=1)
      return text
  \<close>
  (the dash of the source is U+2014).
\<close>

definition replace_underscores :: "pystr \<Rightarrow> pystr \<Rightarrow> error + pystr" where
  "replace_underscores text value =
     (if UNDERSCORE_RE_search text \<noteq> None
      then UNDERSCORE_RE_sub1 (if value \<noteq> [] then value else EM_DASH) text
      else Inr text)"

section \<open>Sequence similarity (\<open>difflib.SequenceMatcher\<close>)\<close>

text \<open>
  \<open>sim\<close> calls \<open>SequenceMatcher(None, a, b).ratio()\<close> of the standard library's
  \<open>difflib\<close>: no junk predicate, and \<open>autojunk\<close> left at its default \<open>True\<close>.

  \<open>__chain_b\<close> indexes \<open>b\<close>: \<open>b2j[elt]\<close> lists the positions of \<open>elt\<close> in \<open>b\<close>, in
  increasing order. When \<open>b\<close> has 200 elements or more, an element that occurs more than
  \<open>len(b) // 100 + 1\<close> times is popular and is deleted from \<open>b2j\<close>. \<open>b2j b elt\<close> is
  \<open>b2j.get(elt, [])\<close>.
\<close>

definition popular :: "pystr \<Rightarrow> int \<Rightarrow> bool" where
  "popular b elt \<longleftrightarrow>
     200 \<le> length b \<and> length b div 100 + 1 < length (filter (\<lambda>x. x = elt) b)"

definition b2j :: "pystr \<Rightarrow> int \<Rightarrow> nat list" where
  "b2j b elt = (if popular b elt then [] else filter (\<lambda>j. b ! j = elt) [0..<length b])"

text \<open>
  \<open>find_longest_match(alo, ahi, blo, bhi)\<close>. The state of its loops is \<open>besti\<close>,
  \<open>bestj\<close>, \<open>bestsize\<close> (a \<open>best\<close>) and the dictionaries \<open>j2len\<close> and \<open>newj2len\<close>.
  \<open>inner_loop\<close> is the loop over \<open>b2j.get(a[i], nothing)\<close> with its \<open>continue\<close> and
  \<open>break\<close>; \<open>j2len.get(j-1, 0)\<close> is 0 at \<open>j = 0\<close>, where the key \<open>-1\<close> is never stored.
  \<open>outer_loop\<close> is the loop over \<open>range(alo, ahi)\<close>. \<open>extend_left\<close> and \<open>extend_right\<close>
  are the two \<open>while\<close> loops that extend the match over elements that are not junk; the
  two loops over junk elements never run, since the junk set is empty.
\<close>

type_synonym best = "nat \<times> nat \<times> nat"

fun inner_loop ::
  "nat \<Rightarrow> nat \<Rightarrow> nat \<Rightarrow> (nat \<rightharpoonup> nat) \<Rightarrow> nat list \<Rightarrow> (nat \<rightharpoonup> nat) \<times> best \<Rightarrow> (nat \<rightharpoonup> nat) \<times> best"
where
  "inner_loop i blo bhi j2len [] st = st"
| "inner_loop i blo bhi j2len (j # js) (newj2len, besti, bestj, bestsize) =
     (if j < blo then inner_loop i blo bhi j2len js (newj2len, besti, bestj, bestsize)
      else if bhi \<le> j then (newj2len, besti, bestj, bestsize)
      else
        (let k = (case (if j = 0 then None else j2len (j - 1)) of None \<Rightarrow> 0 | Some v \<Rightarrow> v) + 1
         in if bestsize < k
            then inner_loop i blo bhi j2len js (newj2len(j \<mapsto> k), i + 1 - k, j + 1 - k, k)
            else inner_loop i blo bhi j2len js (newj2len(j \<mapsto> k), besti, bestj, bestsize)))"

function outer_loop ::
  "pystr \<Rightarrow> pystr \<Rightarrow> nat \<Rightarrow> nat \<Rightarrow> nat \<Rightarrow> nat \<Rightarrow> (nat \<rightharpoonup> nat) \<times> best \<Rightarrow> best"
where
  "outer_loop a b i ahi blo bhi (j2len, bst) =
     (if i < ahi
      then outer_loop a b (i + 1) ahi blo bhi
             (inner_loop i blo bhi j2len (b2j b (a ! i)) (Map.empty, bst))
      else bst)"
  by pat_completeness auto
termination
  by (relation "measure (\<lambda>(a, b, i, ahi, blo, bhi, st). ahi - i)") auto

function extend_left :: "pystr \<Rightarrow> pystr \<Rightarrow> nat \<Rightarrow> nat \<Rightarrow> best \<Rightarrow> best" where
  "extend_left a b alo blo (besti, bestj, bestsize) =
     (if alo < besti \<and> blo < bestj \<and> a ! (besti - 1) = b ! (bestj - 1)
      then extend_left a b alo blo (besti - 1, bestj - 1, bestsize + 1)
      else (besti, bestj, bestsize))"
  by pat_completeness auto
termination
  by (relation "measure (\<lambda>(a, b, alo, blo, besti, bestj, bestsize). besti)") auto

function extend_right :: "pystr \<Rightarrow> pystr \<Rightarrow> nat \<Rightarrow> nat \<Rightarrow> best \<Rightarrow> best" where
  "extend_right a b ahi bhi (besti, bestj, bestsize) =
     (if besti + bestsize < ahi \<and> bestj + bestsize < bhi
         \<and> a ! (besti + bestsize) = b ! (bestj + bestsize)
      then extend_right a b ahi bhi (besti, bestj, bestsize + 1)
      else (besti, bestj, bestsize))"
  by pat_completeness auto
termination
  by (relation "measure (\<lambda>(a, b, ahi, bhi, besti, bestj, bestsize). ahi - (besti + bestsize))") auto

declare outer_loop.simps [simp del] extend_left.simps [simp del] extend_right.simps [simp del]

definition find_longest_match :: "pystr \<Rightarrow> pystr \<Rightarrow> nat \<Rightarrow> nat \<Rightarrow> nat \<Rightarrow> nat \<Rightarrow> best" where
  "find_longest_match a b alo ahi blo bhi =
     extend_right a b ahi bhi
       (extend_left a b alo blo
          (outer_loop a b alo ahi blo bhi (Map.empty, alo, blo, 0)))"

text \<open>
  A match that is not empty lies inside both spans. The loop of \<open>get_matching_blocks\<close>
  terminates for this reason.
\<close>

definition best_ok :: "nat \<Rightarrow> nat \<Rightarrow> nat \<Rightarrow> nat \<Rightarrow> best \<Rightarrow> bool" where
  "best_ok alo hi blo bhi bst =
     (case bst of (besti, bestj, bestsize) \<Rightarrow>
        (bestsize = 0 \<and> besti = alo \<and> bestj = blo) \<or>
        (0 < bestsize \<and> alo \<le> besti \<and> besti + bestsize \<le> hi \<and> blo \<le> bestj
           \<and> bestj + bestsize \<le> bhi))"

definition j2len_ok :: "nat \<Rightarrow> nat \<Rightarrow> nat \<Rightarrow> (nat \<rightharpoonup> nat) \<Rightarrow> bool" where
  "j2len_ok alo blo i m = (\<forall>j v. m j = Some v \<longrightarrow> v + alo \<le> i \<and> v + blo \<le> j + 1)"

lemma inner_loop_ok:
  assumes "j2len_ok alo blo i j2len" "alo \<le> i"
    and "j2len_ok alo blo (i + 1) new" "best_ok alo (i + 1) blo bhi bst"
  shows "j2len_ok alo blo (i + 1) (fst (inner_loop i blo bhi j2len js (new, bst)))
       \<and> best_ok alo (i + 1) blo bhi (snd (inner_loop i blo bhi j2len js (new, bst)))"
  using assms(3,4)
proof (induction js arbitrary: new bst)
  case Nil
  then show ?case by simp
next
  case (Cons j js)
  obtain besti bestj bestsize where bst: "bst = (besti, bestj, bestsize)"
    by (cases bst) auto
  show ?case
  proof (cases "j < blo \<or> bhi \<le> j")
    case True
    then show ?thesis using Cons bst by auto
  next
    case False
    define prev where "prev = (case (if j = 0 then None else j2len (j - 1)) of None \<Rightarrow> 0 | Some v \<Rightarrow> v)"
    define k where "k = prev + 1"
    have pb: "prev + alo \<le> i \<and> prev + blo \<le> j"
    proof (cases "if j = 0 then None else j2len (j - 1)")
      case None
      then show ?thesis using assms(2) False by (simp add: prev_def)
    next
      case (Some v)
      then have j: "j \<noteq> 0" "j2len (j - 1) = Some v" by (auto split: if_splits)
      with assms(1) have "v + alo \<le> i \<and> v + blo \<le> (j - 1) + 1"
        unfolding j2len_ok_def by blast
      with j Some show ?thesis by (simp add: prev_def)
    qed
    have new': "j2len_ok alo blo (i + 1) (new(j \<mapsto> k))"
      using Cons.prems(1) pb unfolding j2len_ok_def k_def by auto
    have b1: "best_ok alo (i + 1) blo bhi (i + 1 - k, j + 1 - k, k)"
      using pb False unfolding best_ok_def k_def by auto
    have step: "inner_loop i blo bhi j2len (j # js) (new, besti, bestj, bestsize) =
        (if bestsize < k
         then inner_loop i blo bhi j2len js (new(j \<mapsto> k), i + 1 - k, j + 1 - k, k)
         else inner_loop i blo bhi j2len js (new(j \<mapsto> k), besti, bestj, bestsize))"
      using False by (simp add: k_def prev_def Let_def)
    show ?thesis
    proof (cases "bestsize < k")
      case True
      with step have "inner_loop i blo bhi j2len (j # js) (new, bst) =
          inner_loop i blo bhi j2len js (new(j \<mapsto> k), i + 1 - k, j + 1 - k, k)"
        unfolding bst by (simp only: if_True)
      then show ?thesis using Cons.IH[OF new' b1] by (simp only:)
    next
      case False
      with step have "inner_loop i blo bhi j2len (j # js) (new, bst) =
          inner_loop i blo bhi j2len js (new(j \<mapsto> k), bst)"
        unfolding bst by (simp only: if_False)
      then show ?thesis using Cons.IH[OF new' Cons.prems(2)] by (simp only:)
    qed
  qed
qed

lemma best_ok_mono: "best_ok alo hi blo bhi bst \<Longrightarrow> hi \<le> hi' \<Longrightarrow> best_ok alo hi' blo bhi bst"
  unfolding best_ok_def by (auto split: prod.splits)

lemma outer_loop_ok:
  assumes "j2len_ok alo blo i j2len" "alo \<le> i" "best_ok alo i blo bhi bst" "i \<le> ahi"
  shows "best_ok alo ahi blo bhi (outer_loop a b i ahi blo bhi (j2len, bst))"
  using assms
proof (induction a b i ahi blo bhi "(j2len, bst)" arbitrary: j2len bst rule: outer_loop.induct)
  case (1 a b i ahi blo bhi j2len bst)
  show ?case
  proof (cases "i < ahi")
    case True
    obtain new bst' where r: "inner_loop i blo bhi j2len (b2j b (a ! i)) (Map.empty, bst) = (new, bst')"
      by (cases "inner_loop i blo bhi j2len (b2j b (a ! i)) (Map.empty, bst)") auto
    have e: "j2len_ok alo blo (i + 1) Map.empty" unfolding j2len_ok_def by simp
    have b: "best_ok alo (i + 1) blo bhi bst" using "1.prems"(3) best_ok_mono by auto
    from inner_loop_ok[OF "1.prems"(1,2) e b, of "b2j b (a ! i)"] r
    have "j2len_ok alo blo (i + 1) new" "best_ok alo (i + 1) blo bhi bst'" by auto
    with "1.hyps"[OF True r] True "1.prems" r show ?thesis
      by (subst outer_loop.simps) simp
  next
    case False
    with "1.prems" show ?thesis by (subst outer_loop.simps) simp
  qed
qed

lemma extend_left_ok:
  "best_ok alo hi blo bhi bst \<Longrightarrow> best_ok alo hi blo bhi (extend_left a b alo blo bst)"
proof (induction a b alo blo bst rule: extend_left.induct)
  case (1 a b alo blo besti bestj bestsize)
  show ?case
  proof (cases "alo < besti \<and> blo < bestj \<and> a ! (besti - 1) = b ! (bestj - 1)")
    case True
    have "best_ok alo hi blo bhi (besti - 1, bestj - 1, bestsize + 1)"
      using "1.prems" True unfolding best_ok_def by auto
    with "1.IH" True show ?thesis by (subst extend_left.simps) simp
  next
    case False
    with "1.prems" show ?thesis by (subst extend_left.simps) auto
  qed
qed

lemma extend_right_ok:
  "best_ok alo ahi blo bhi bst \<Longrightarrow> best_ok alo ahi blo bhi (extend_right a b ahi bhi bst)"
proof (induction a b ahi bhi bst rule: extend_right.induct)
  case (1 a b ahi bhi besti bestj bestsize)
  show ?case
  proof (cases "besti + bestsize < ahi \<and> bestj + bestsize < bhi
         \<and> a ! (besti + bestsize) = b ! (bestj + bestsize)")
    case True
    have "best_ok alo ahi blo bhi (besti, bestj, bestsize + 1)"
      using "1.prems" True unfolding best_ok_def by auto
    with "1.IH" True show ?thesis by (subst extend_right.simps) simp
  next
    case False
    with "1.prems" show ?thesis by (subst extend_right.simps) auto
  qed
qed

lemma find_longest_match_ok:
  "best_ok alo ahi blo bhi (find_longest_match a b alo ahi blo bhi)"
proof -
  have init: "best_ok alo hi blo bhi (alo, blo, 0)" for hi
    unfolding best_ok_def by simp
  have "best_ok alo ahi blo bhi (outer_loop a b alo ahi blo bhi (Map.empty, alo, blo, 0))"
  proof (cases "alo \<le> ahi")
    case True
    have "j2len_ok alo blo alo Map.empty" unfolding j2len_ok_def by simp
    from outer_loop_ok[OF this _ init True] show ?thesis by simp
  next
    case False
    then show ?thesis using init by (subst outer_loop.simps) simp
  qed
  then show ?thesis
    unfolding find_longest_match_def by (intro extend_right_ok extend_left_ok)
qed

lemma find_longest_match_bounds:
  assumes "find_longest_match a b alo ahi blo bhi = (i, j, k)" "0 < k"
  shows "alo \<le> i \<and> i + k \<le> ahi \<and> blo \<le> j \<and> j + k \<le> bhi"
  using find_longest_match_ok[of alo ahi blo bhi a b] assms
  unfolding best_ok_def by simp


lemma find_longest_match_bounds':
  assumes "(i, jk) = find_longest_match a b alo ahi blo bhi" "(j, k) = jk" "0 < k"
  shows "alo \<le> i \<and> i + k \<le> ahi \<and> blo \<le> j \<and> j + k \<le> bhi"
  using find_longest_match_bounds[of a b alo ahi blo bhi i j k] assms by simp

text \<open>
  \<open>get_matching_blocks\<close>: the \<open>while queue\<close> loop, with the head of the list as the
  end of the Python list (\<open>queue.pop()\<close> takes the span appended last). The sort and the
  merge of adjacent blocks that follow the loop keep the sum of the block sizes, the only
  thing \<open>ratio\<close> reads, and are left out; so is the final dummy block of size 0.
  \<open>ratio\<close> is \<open>_calculate_ratio(matches, len(a) + len(b))\<close>. The quotient
  \<open>2.0 * matches / length\<close> is a float in Python and a rational here: two such quotients,
  or one and the constants 0.62 and 0.95, compare in floating point as they do exactly
  as long as the strings are shorter than \<open>2^25\<close> characters (two different quotients
  then differ by more than the spacing of the floats between 0 and 1).
\<close>

type_synonym span = "nat \<times> nat \<times> nat \<times> nat"

definition weight :: "span \<Rightarrow> nat" where
  "weight q = (case q of (alo, ahi, blo, bhi) \<Rightarrow> 2 * (ahi - alo) + 1)"

function blocks_loop :: "pystr \<Rightarrow> pystr \<Rightarrow> span list \<Rightarrow> best list \<Rightarrow> best list" where
  "blocks_loop a b [] matching_blocks = matching_blocks"
| "blocks_loop a b ((alo, ahi, blo, bhi) # queue) matching_blocks =
     (case find_longest_match a b alo ahi blo bhi of
        (i, j, k) \<Rightarrow>
          if k \<noteq> 0 then
            blocks_loop a b
              ((if i + k < ahi \<and> j + k < bhi then [(i + k, ahi, j + k, bhi)] else []) @
               (if alo < i \<and> blo < j then [(alo, i, blo, j)] else []) @ queue)
              (matching_blocks @ [(i, j, k)])
          else blocks_loop a b queue matching_blocks)"
  by pat_completeness auto
termination
  apply (relation "measure (\<lambda>(a, b, queue, blocks). sum_list (map weight queue))")
    apply simp
   apply (simp_all add: weight_def)
  apply (frule (2) find_longest_match_bounds')
  apply linarith
  done

declare blocks_loop.simps [simp del]

definition get_matching_blocks :: "pystr \<Rightarrow> pystr \<Rightarrow> best list" where
  "get_matching_blocks a b = blocks_loop a b [(0, length a, 0, length b)] []"

definition ratio :: "pystr \<Rightarrow> pystr \<Rightarrow> rat" where
  "ratio a b =
     (let matches = sum_list (map (\<lambda>(i, j, k). k) (get_matching_blocks a b));
          length = length a + length b
      in if length \<noteq> 0 then 2 * of_nat matches / of_nat length else 1)"


text \<open>The blocks found in a span fit into it, so \<open>ratio\<close> is between 0 and 1.\<close>

definition matches_of :: "best list \<Rightarrow> nat" where
  "matches_of blocks = sum_list (map (\<lambda>(i, j, k). k) blocks)"

definition room :: "span \<Rightarrow> nat" where
  "room q = (case q of (alo, ahi, blo, bhi) \<Rightarrow> min (ahi - alo) (bhi - blo))"

lemma blocks_loop_matches:
  "matches_of (blocks_loop a b queue blocks) \<le> matches_of blocks + sum_list (map room queue)"
proof (induction a b queue blocks rule: blocks_loop.induct)
  case (1 a b blocks)
  then show ?case by (simp add: blocks_loop.simps)
next
  case (2 a b alo ahi blo bhi queue blocks)
  obtain i j k where f: "find_longest_match a b alo ahi blo bhi = (i, j, k)"
    by (cases "find_longest_match a b alo ahi blo bhi") auto
  show ?case
  proof (cases "k = 0")
    case True
    with f "2.IH"(2)[OF f[symmetric] refl] show ?thesis
      by (simp add: blocks_loop.simps(2))
  next
    case False
    with f have bd: "alo \<le> i \<and> i + k \<le> ahi \<and> blo \<le> j \<and> j + k \<le> bhi"
      using find_longest_match_bounds by simp
    let ?q = "(if i + k < ahi \<and> j + k < bhi then [(i + k, ahi, j + k, bhi)] else []) @
               (if alo < i \<and> blo < j then [(alo, i, blo, j)] else []) @ queue"
    have ih: "matches_of (blocks_loop a b ?q (blocks @ [(i, j, k)]))
          \<le> matches_of (blocks @ [(i, j, k)]) + sum_list (map room ?q)"
      using "2.IH"(1)[OF f[symmetric] refl] False by simp
    have "k + sum_list (map room ?q) \<le> room (alo, ahi, blo, bhi) + sum_list (map room queue)"
      using bd by (auto simp: room_def)
    with ih f False show ?thesis
      by (simp add: blocks_loop.simps(2) matches_of_def)
  qed
qed

lemma ratio_range: "0 \<le> ratio a b \<and> ratio a b \<le> 1"
proof -
  have "matches_of (get_matching_blocks a b) \<le> min (length a) (length b)"
    using blocks_loop_matches[of a b "[(0, length a, 0, length b)]" "[]"]
    by (simp add: get_matching_blocks_def room_def matches_of_def)
  then have "2 * matches_of (get_matching_blocks a b) \<le> length a + length b" by simp
  then have "2 * (of_nat (matches_of (get_matching_blocks a b)) :: rat) \<le> of_nat (length a + length b)"
    by (metis of_nat_le_iff of_nat_mult of_nat_numeral)
  then show ?thesis
    by (simp add: ratio_def Let_def matches_of_def divide_le_eq)
qed

section \<open>Normalisation and similarity\<close>

text \<open>
  \<^verbatim>\<open>
  def norm(s: str) -> str:
      s = s.strip().lower()
      s = WS_RE.sub(" ", s)
      return s
  \<close>
  \<open>str.lower\<close> follows the case mappings of the Unicode database. It is the parameter
  \<open>lower\<close> of the functions below, so every theorem holds whatever \<open>str.lower\<close> does;
  concrete documents are evaluated with \<open>ascii_lower\<close>, which is \<open>str.lower\<close> on ASCII
  text.
\<close>

definition norm_str :: "(pystr \<Rightarrow> pystr) \<Rightarrow> pystr \<Rightarrow> pystr" where
  "norm_str lower s = WS_RE_sub_space (lower (strip s))"

definition ascii_lower :: "pystr \<Rightarrow> pystr" where
  "ascii_lower s = map (\<lambda>c. if 65 \<le> c \<and> c \<le> 90 then c + 32 else c) s"

text \<open>
  \<^verbatim>\<open>
  def sim(a: str, b: str) -> float:
      if not a or not b:
          return 0.0
      return SequenceMatcher(None, norm(a), norm(b)).ratio()
  \<close>
\<close>

definition sim :: "(pystr \<Rightarrow> pystr) \<Rightarrow> pystr \<Rightarrow> pystr \<Rightarrow> rat" where
  "sim lower a b =
     (if a = [] \<or> b = [] then 0 else ratio (norm_str lower a) (norm_str lower b))"

section \<open>The document\<close>

text \<open>
  The document object of \<open>python-docx\<close> is used through four things only:
  \<open>doc.paragraphs\<close> (the paragraphs of the body, in order), \<open>doc.tables\<close> with
  \<open>table.rows\<close> and \<open>row.cells\<close>, and the \<open>text\<close> property of paragraphs and cells, read
  and assigned. The model is the text of every region, by position. A paragraph object
  is referred to by its position in \<open>doc.paragraphs\<close>, a table object by its position in
  \<open>doc.tables\<close>, a cell object by its table, row and column. Cells merged across grid
  positions, which \<open>python-docx\<close> reports once for each position, are not modelled.
\<close>

record document =
  paragraphs :: "pystr list"
  tables :: "pystr list list list"

type_synonym cell_ref = "nat \<times> nat \<times> nat"

definition paragraph_text :: "document \<Rightarrow> nat \<Rightarrow> pystr" where
  "paragraph_text doc p = paragraphs doc ! p"

definition set_paragraph_text :: "document \<Rightarrow> nat \<Rightarrow> pystr \<Rightarrow> document" where
  "set_paragraph_text doc p s = doc\<lparr>paragraphs := (paragraphs doc)[p := s]\<rparr>"

text \<open>
  \<open>paragraph_text\<close> reads the \<open>text\<close> of a paragraph and \<open>set_paragraph_text\<close> stores
  one; \<open>cell_text\<close> and \<open>set_cell_text\<close> do the same for a cell.
\<close>

definition cell_text :: "document \<Rightarrow> cell_ref \<Rightarrow> pystr" where
  "cell_text doc a = (case a of (t, r, c) \<Rightarrow> tables doc ! t ! r ! c)"

definition set_cell_text :: "document \<Rightarrow> cell_ref \<Rightarrow> pystr \<Rightarrow> document" where
  "set_cell_text doc a s =
     (case a of (t, r, c) \<Rightarrow>
        doc\<lparr>tables := (tables doc)[t := (tables doc ! t)[r := (tables doc ! t ! r)[c := s]]]\<rparr>)"

text \<open>
  Assigning \<open>text\<close> (\<open>p.text = s\<close>, \<open>cell.text = s\<close>) empties the region and appends the
  characters of \<open>s\<close> to a new run: a tab becomes a tab element, a line feed or a carriage
  return becomes a line break, and the characters between them become text elements.
  \<open>lxml\<close> refuses a text element that holds a character XML does not allow (a control
  character other than tab, line feed and carriage return, a surrogate, U+FFFE, U+FFFF)
  with \<open>ValueError\<close>. Reading \<open>text\<close> gives a line feed for every line break, so a
  carriage return that was assigned is read as a line feed. \<open>assign_text s\<close> is the text
  the region holds after the assignment of \<open>s\<close>, or the error; \<open>write_paragraph\<close> and
  \<open>write_cell\<close> are the two assignments. A string is \<open>readable\<close> when it is stored as it
  is: it holds characters XML allows, and no carriage return. The texts of a document
  loaded from a file are such strings.
\<close>

definition xml_char :: "int \<Rightarrow> bool" where
  "xml_char c \<longleftrightarrow>
     (c = 9 \<or> c = 10 \<or> c = 13 \<or> 32 \<le> c) \<and> (c < 55296 \<or> 57343 < c)
     \<and> c \<noteq> 65534 \<and> c \<noteq> 65535"

definition stored_text :: "pystr \<Rightarrow> pystr" where
  "stored_text s = map (\<lambda>c. if c = 13 then 10 else c) s"

definition assign_text :: "pystr \<Rightarrow> error + pystr" where
  "assign_text s = (if list_all xml_char s then Inr (stored_text s) else Inl ValueError)"

definition readable :: "pystr \<Rightarrow> bool" where
  "readable s \<longleftrightarrow> list_all xml_char s \<and> 13 \<notin> set s"

definition write_paragraph :: "document \<Rightarrow> nat \<Rightarrow> pystr \<Rightarrow> error + document" where
  "write_paragraph doc p s =
     (case assign_text s of Inl e \<Rightarrow> Inl e | Inr t \<Rightarrow> Inr (set_paragraph_text doc p t))"

definition write_cell :: "document \<Rightarrow> cell_ref \<Rightarrow> pystr \<Rightarrow> error + document" where
  "write_cell doc a s =
     (case assign_text s of Inl e \<Rightarrow> Inl e | Inr t \<Rightarrow> Inr (set_cell_text doc a t))"

text \<open>
  \<^verbatim>\<open>
  @dataclass
  class Match:
      kind: str  # "paragraph" | "cell"
      score: float
      paragraph: Optional[Paragraph] = None
      table: Optional[Table] = None
      cell: Optional[_Cell] = None
      cell_pos: Optional[Tuple[int, int]] = None  # (row_idx, col_idx)
  \<close>
  The field \<open>paragraph\<close> is \<open>paragraph'\<close> here.
\<close>

record Match =
  kind :: string
  score :: rat
  paragraph' :: "nat option"
  table :: "nat option"
  cell :: "cell_ref option"
  cell_pos :: "(nat \<times> nat) option"

text \<open>
  \<^verbatim>\<open>
  def iter_paragraphs(doc):
      for p in doc.paragraphs:
          yield p

  def iter_cells(doc):
      for t_i, table in enumerate(doc.tables):
          for r_i, row in enumerate(table.rows):
              for c_i, cell in enumerate(row.cells):
                  yield table, cell, r_i, c_i
  \<close>
\<close>

definition iter_paragraphs :: "document \<Rightarrow> nat list" where
  "iter_paragraphs doc = [0..<length (paragraphs doc)]"

definition iter_cells :: "document \<Rightarrow> (nat \<times> cell_ref \<times> nat \<times> nat) list" where
  "iter_cells doc =
     concat (map (\<lambda>t_i.
       concat (map (\<lambda>r_i.
         map (\<lambda>c_i. (t_i, (t_i, r_i, c_i), r_i, c_i))
           [0..<length (tables doc ! t_i ! r_i)])
         [0..<length (tables doc ! t_i)]))
       [0..<length (tables doc)])"

section \<open>Resolving an anchor\<close>

text \<open>
  \<^verbatim>\<open>
  def find_best_anchor(doc, anchor, min_score=0.62):
      anchor_n = norm(anchor)
      best = None
      for p in iter_paragraphs(doc):
          text = p.text or ""
          if not text.strip():
              continue
          score = sim(anchor_n, text)
          if anchor_n and anchor_n in norm(text):
              score = max(score, 0.95)
          if best is None or score > best.score:
              best = Match(kind="paragraph", score=score, paragraph=p)
      for table, cell, r_i, c_i in iter_cells(doc):
          text = cell.text or ""
          if not text.strip():
              continue
          score = sim(anchor_n, text)
          if anchor_n and anchor_n in norm(text):
              score = max(score, 0.95)
          if best is None or score > best.score:
              best = Match(kind="cell", score=score, table=table, cell=cell,
                           cell_pos=(r_i, c_i))
      if best is None or best.score < min_score:
          return None
      return best
  \<close>
  \<open>boosted_score\<close> is the score both loops compute, \<open>better\<close> their last test, and
  \<open>scan_paragraph\<close> and \<open>scan_cell\<close> are the two loop bodies.
\<close>

definition boosted_score :: "(pystr \<Rightarrow> pystr) \<Rightarrow> pystr \<Rightarrow> pystr \<Rightarrow> rat" where
  "boosted_score lower anchor_n text =
     (let score = sim lower anchor_n text in
      if anchor_n \<noteq> [] \<and> str_in anchor_n (norm_str lower text)
      then max score (95 / 100) else score)"

definition better :: "Match option \<Rightarrow> Match \<Rightarrow> Match option" where
  "better best new =
     (case best of
        None \<Rightarrow> Some new
      | Some b \<Rightarrow> if score new > score b then Some new else best)"

definition paragraph_match :: "rat \<Rightarrow> nat \<Rightarrow> Match" where
  "paragraph_match s p =
     \<lparr>kind = ''paragraph'', score = s, paragraph' = Some p, table = None, cell = None,
      cell_pos = None\<rparr>"

definition cell_match :: "rat \<Rightarrow> nat \<times> cell_ref \<times> nat \<times> nat \<Rightarrow> Match" where
  "cell_match s x =
     (case x of (tbl, cl, r_i, c_i) \<Rightarrow>
        \<lparr>kind = ''cell'', score = s, paragraph' = None, table = Some tbl, cell = Some cl,
         cell_pos = Some (r_i, c_i)\<rparr>)"

definition scan_paragraph ::
  "(pystr \<Rightarrow> pystr) \<Rightarrow> document \<Rightarrow> pystr \<Rightarrow> nat \<Rightarrow> Match option \<Rightarrow> Match option"
where
  "scan_paragraph lower doc anchor_n p best =
     (let text = paragraph_text doc p in
      if strip text = [] then best
      else better best (paragraph_match (boosted_score lower anchor_n text) p))"

definition scan_cell ::
  "(pystr \<Rightarrow> pystr) \<Rightarrow> document \<Rightarrow> pystr \<Rightarrow> nat \<times> cell_ref \<times> nat \<times> nat \<Rightarrow>
     Match option \<Rightarrow> Match option"
where
  "scan_cell lower doc anchor_n x best =
     (let text = cell_text doc (fst (snd x)) in
      if strip text = [] then best
      else better best (cell_match (boosted_score lower anchor_n text) x))"

definition find_best_anchor ::
  "(pystr \<Rightarrow> pystr) \<Rightarrow> document \<Rightarrow> pystr \<Rightarrow> rat \<Rightarrow> Match option"
where
  "find_best_anchor lower doc anchor min_score =
     (let anchor_n = norm_str lower anchor;
          best = fold (scan_paragraph lower doc anchor_n) (iter_paragraphs doc) None;
          best = fold (scan_cell lower doc anchor_n) (iter_cells doc) best
      in case best of
           None \<Rightarrow> None
         | Some b \<Rightarrow> if score b < min_score then None else best)"

section \<open>Filling a paragraph\<close>

text \<open>\<open>value if value else "-"\<close>, with the dash U+2014.\<close>

definition or_dash :: "pystr \<Rightarrow> pystr" where
  "or_dash value = (if value \<noteq> [] then value else EM_DASH)"

text \<open>
  \<open>idx\<close> after
  \<^verbatim>\<open>
      try:
          idx = doc.paragraphs.index(p)
      except ValueError:
          idx = -1
  \<close>
  Every access to \<open>doc.paragraphs\<close> builds a new list of new \<open>Paragraph\<close> objects, and
  \<open>Paragraph\<close> defines no equality of its own, so two of them are equal only when they
  are the same object. The paragraph \<open>p\<close> was built by an earlier access (the one of
  \<open>iter_paragraphs\<close>), so \<open>index\<close> finds no element equal to it in the new list and
  raises \<open>ValueError\<close>: \<open>idx\<close> is always -1.
\<close>

definition paragraph_index :: "document \<Rightarrow> nat \<Rightarrow> int" where
  "paragraph_index doc p = - 1"

text \<open>
  \<^verbatim>\<open>
  def fill_paragraph(doc, p, value) -> bool:
      original = p.text or ""
      if not original.strip():
          return False
      # 1) underscores
      new_text = replace_underscores(original, value)
      if new_text != original:
          p.text = new_text
          return True
      # 2) colon pattern "Label: ____"
      if ":" in original:
          left, right = original.split(":", 1)
          # if right already has something meaningful, don't overwrite blindly
          right_clean = right.strip()
          if not right_clean or UNDERSCORE_RE.search(right) or right_clean in {"-", "-", "-"}:
              insert_val = value if value else "-"
              p.text = f"{left.strip()}: {insert_val}"
              return True
      # 3) next paragraph if empty/underscores
      try:
          idx = doc.paragraphs.index(p)
      except ValueError:
          idx = -1
      if idx >= 0 and idx + 1 < len(doc.paragraphs):
          p_next = doc.paragraphs[idx + 1]
          nxt = (p_next.text or "").strip()
          if (not nxt) or UNDERSCORE_RE.search(p_next.text or ""):
              p_next.text = replace_underscores(p_next.text or "", value if value else "-")
              if not (p_next.text or "").strip():
                  p_next.text = value if value else "-"
              return True
      # 4) fallback: append at end (minimal)
      p.text = f"{original.rstrip()} {value if value else '-'}"
      return True
  \<close>
  (the three dashes of the set are U+2014, the hyphen-minus and U+2013). The function
  returns the flag and the document after the call. \<open>fill_next_or_append\<close> is the part
  from step 3 on, which the source reaches from two places, and \<open>fill_next\<close> is the fill of
  the next paragraph inside it (from the assignment of \<open>p_next.text\<close> to \<open>return True\<close>).
\<close>

definition DASHES :: "pystr set" where
  "DASHES = {EM_DASH, HYPHEN, EN_DASH}"

definition fill_next :: "document \<Rightarrow> nat \<Rightarrow> pystr \<Rightarrow> error + bool \<times> document" where
  "fill_next doc p_next value =
     (case replace_underscores (paragraph_text doc p_next) (or_dash value) of
        Inl e \<Rightarrow> Inl e
      | Inr t \<Rightarrow>
          (case write_paragraph doc p_next t of
             Inl e \<Rightarrow> Inl e
           | Inr doc1 \<Rightarrow>
               if strip (paragraph_text doc1 p_next) = []
               then (case write_paragraph doc1 p_next (or_dash value) of
                       Inl e \<Rightarrow> Inl e
                     | Inr doc2 \<Rightarrow> Inr (True, doc2))
               else Inr (True, doc1)))"

definition fill_next_or_append :: "document \<Rightarrow> nat \<Rightarrow> pystr \<Rightarrow> pystr \<Rightarrow> error + bool \<times> document" where
  "fill_next_or_append doc p original value =
     (let idx = paragraph_index doc p in
      if idx \<ge> 0 \<and> idx + 1 < int (length (paragraphs doc))
         \<and> (strip (paragraph_text doc (nat idx + 1)) = []
              \<or> UNDERSCORE_RE_search (paragraph_text doc (nat idx + 1)) \<noteq> None)
      then fill_next doc (nat idx + 1) value
      else
        (case write_paragraph doc p (rstrip original @ [32] @ or_dash value) of
           Inl e \<Rightarrow> Inl e
         | Inr doc' \<Rightarrow> Inr (True, doc')))"

definition fill_paragraph :: "document \<Rightarrow> nat \<Rightarrow> pystr \<Rightarrow> error + bool \<times> document" where
  "fill_paragraph doc p value =
     (let original = paragraph_text doc p in
      if strip original = [] then Inr (False, doc)
      else
        case replace_underscores original value of
          Inl e \<Rightarrow> Inl e
        | Inr new_text \<Rightarrow>
            if new_text \<noteq> original then
              (case write_paragraph doc p new_text of
                 Inl e \<Rightarrow> Inl e
               | Inr doc' \<Rightarrow> Inr (True, doc'))
            else if COLON \<in> set original then
              (let (left, right) = split_colon original;
                   right_clean = strip right
               in if right_clean = [] \<or> UNDERSCORE_RE_search right \<noteq> None
                     \<or> right_clean \<in> DASHES
                  then (case write_paragraph doc p (strip left @ [COLON, 32] @ or_dash value) of
                          Inl e \<Rightarrow> Inl e
                        | Inr doc' \<Rightarrow> Inr (True, doc'))
                  else fill_next_or_append doc p original value)
            else fill_next_or_append doc p original value)"

section \<open>Filling a table cell\<close>

text \<open>
  \<^verbatim>\<open>
  def fill_table_cell_right(match, value) -> bool:
      assert match.table is not None and match.cell_pos is not None
      r_i, c_i = match.cell_pos
      row = match.table.rows[r_i]
      if c_i + 1 < len(row.cells):
          target = row.cells[c_i + 1]
          txt = target.text or ""
          # if underscores -> replace; else overwrite if empty
          if UNDERSCORE_RE.search(txt):
              target.text = replace_underscores(txt, value if value else "-")
          elif not txt.strip() or txt.strip() in {"-", "-", "-"}:
              target.text = value if value else "-"
          else:
              # already filled -> append (safe minimal)
              target.text = f"{txt.rstrip()} {value if value else '-'}"
          return True
      # if no right cell exists, write into the same cell (fallback)
      cell_txt = match.cell.text or ""
      match.cell.text = replace_underscores(cell_txt, value if value else "-")
      if match.cell.text == cell_txt:
          match.cell.text = f"{cell_txt.rstrip()} {value if value else '-'}"
      return True
  \<close>
  The table and the cell of the match are objects of the document, so the model takes
  the document too and returns it after the call.
\<close>

definition fill_table_cell_right :: "document \<Rightarrow> Match \<Rightarrow> pystr \<Rightarrow> error + bool \<times> document" where
  "fill_table_cell_right doc match value =
     (case (table match, cell_pos match) of
        (Some t, Some (r_i, c_i)) \<Rightarrow>
          if length (tables doc ! t) \<le> r_i then Inl IndexError
          else
            (let row = tables doc ! t ! r_i in
             if c_i + 1 < length row then
               (let target = (t, r_i, c_i + 1);
                    txt = cell_text doc target
                in if UNDERSCORE_RE_search txt \<noteq> None then
                     (case replace_underscores txt (or_dash value) of
                        Inl e \<Rightarrow> Inl e
                      | Inr s \<Rightarrow>
                          (case write_cell doc target s of
                             Inl e \<Rightarrow> Inl e
                           | Inr doc' \<Rightarrow> Inr (True, doc')))
                   else if strip txt = [] \<or> strip txt \<in> DASHES then
                     (case write_cell doc target (or_dash value) of
                        Inl e \<Rightarrow> Inl e
                      | Inr doc' \<Rightarrow> Inr (True, doc'))
                   else
                     (case write_cell doc target (rstrip txt @ [32] @ or_dash value) of
                        Inl e \<Rightarrow> Inl e
                      | Inr doc' \<Rightarrow> Inr (True, doc')))
             else
               (case cell match of
                  None \<Rightarrow> Inl AttributeError
                | Some c \<Rightarrow>
                    (let cell_txt = cell_text doc c in
                     case replace_underscores cell_txt (or_dash value) of
                       Inl e \<Rightarrow> Inl e
                     | Inr s \<Rightarrow>
                         (case write_cell doc c s of
                            Inl e \<Rightarrow> Inl e
                          | Inr doc1 \<Rightarrow>
                              if cell_text doc1 c = cell_txt
                              then (case write_cell doc1 c
                                           (rstrip cell_txt @ [32] @ or_dash value) of
                                      Inl e \<Rightarrow> Inl e
                                    | Inr doc2 \<Rightarrow> Inr (True, doc2))
                              else Inr (True, doc1)))))
      | _ \<Rightarrow> Inl AssertionError)"

section \<open>The orchestrator\<close>

text \<open>
  \<^verbatim>\<open>
  def fill_docx(input_docx, input_json, output_docx) -> None:
      doc = Document(str(input_docx))
      fields = load_fields(input_json)
      not_found = []
      for anchor, value in fields:
          if not anchor:
              continue
          m = find_best_anchor(doc, anchor)
          if m is None:
              not_found.append(anchor)
              continue
          if m.kind == "cell":
              fill_table_cell_right(m, value)
          else:
              assert m.paragraph is not None
              fill_paragraph(doc, m.paragraph, value)
      doc.save(str(output_docx))
      ...
  \<close>
  Loading and saving are outside the model: \<open>fill_docx\<close> takes the loaded document and
  the loaded fields, and returns the document it saves and \<open>not_found\<close>. \<open>fill_loop\<close> is
  the \<open>for\<close> loop, on the document and \<open>not_found\<close>; an exception ends it.
\<close>

fun fill_loop ::
  "(pystr \<Rightarrow> pystr) \<Rightarrow> (pystr \<times> pystr) list \<Rightarrow> document \<times> pystr list \<Rightarrow>
     error + document \<times> pystr list"
where
  "fill_loop lower [] st = Inr st"
| "fill_loop lower ((anchor, value) # rest) (doc, not_found) =
     (if anchor = [] then fill_loop lower rest (doc, not_found)
      else
        case find_best_anchor lower doc anchor (62 / 100) of
          None \<Rightarrow> fill_loop lower rest (doc, not_found @ [anchor])
        | Some m \<Rightarrow>
            if kind m = ''cell'' then
              (case fill_table_cell_right doc m value of
                 Inl e \<Rightarrow> Inl e
               | Inr (changed, doc') \<Rightarrow> fill_loop lower rest (doc', not_found))
            else
              (case paragraph' m of
                 None \<Rightarrow> Inl AssertionError
               | Some p \<Rightarrow>
                   (case fill_paragraph doc p value of
                      Inl e \<Rightarrow> Inl e
                    | Inr (changed, doc') \<Rightarrow> fill_loop lower rest (doc', not_found))))"

definition fill_docx ::
  "(pystr \<Rightarrow> pystr) \<Rightarrow> document \<Rightarrow> (pystr \<times> pystr) list \<Rightarrow> error + document \<times> pystr list"
where
  "fill_docx lower doc field_list = fill_loop lower field_list (doc, [])"

section \<open>An example document\<close>

text \<open>
  A small form, used to run the functions: three paragraphs (the second is blank) and a
  table of two rows and two columns.
\<close>

definition ex_doc :: document where
  "ex_doc =
     \<lparr>paragraphs = [ustr ''Full Name: _________'', ustr ''   '', ustr ''Notes''],
      tables = [[[ustr ''Date of birth'', ustr ''''], [ustr ''City'', ustr ''___'']]]\<rparr>"

section \<open>Values that the template reads as they are\<close>

text \<open>
  A value without a backslash is a template without escapes: it is inserted as it is.
\<close>

lemma tokenize_literal: "92 \<notin> set s \<Longrightarrow> tokenize s = Inr (map Lit s)"
  by (induction s) auto

lemma expand_literal: "expand m (map Lit s) = Inr s"
  by (induction s) auto

lemma sub1_literal:
  "92 \<notin> set repl \<Longrightarrow>
   UNDERSCORE_RE_sub1 repl text =
     Inr (case UNDERSCORE_RE_search text of
            None \<Rightarrow> text
          | Some (before, m, after) \<Rightarrow> before @ repl @ after)"
  by (simp add: UNDERSCORE_RE_sub1_def tokenize_literal expand_literal split: option.splits)

lemma or_dash_literal: "92 \<notin> set value \<Longrightarrow> 92 \<notin> set (or_dash value)"
  by (simp add: or_dash_def EM_DASH_def)

lemma or_dash_idem: "or_dash (or_dash value) = or_dash value"
  by (simp add: or_dash_def EM_DASH_def)

lemma replace_underscores_or_dash:
  "replace_underscores text value =
     (if UNDERSCORE_RE_search text \<noteq> None then UNDERSCORE_RE_sub1 (or_dash value) text
      else Inr text)"
  by (simp add: replace_underscores_def or_dash_def)

lemma replace_underscores_literal:
  "92 \<notin> set value \<Longrightarrow>
   replace_underscores text value =
     Inr (case UNDERSCORE_RE_search text of
            None \<Rightarrow> text
          | Some (before, m, after) \<Rightarrow> before @ or_dash value @ after)"
  by (simp add: replace_underscores_or_dash sub1_literal or_dash_literal split: option.splits)

text \<open>
  A match of \<open>UNDERSCORE_RE\<close> splits the text: the match is a run of three underscores or
  more, and no underscore follows it.
\<close>

lemma search_Some:
  "UNDERSCORE_RE_search text = Some (before, m, after) \<Longrightarrow>
     text = before @ m @ after \<and> 3 \<le> length m \<and> set m \<subseteq> {UNDERSCORE}
     \<and> (after = [] \<or> hd after \<noteq> UNDERSCORE)"
proof (induction "text" arbitrary: before)
  case Nil
  then show ?case by simp
next
  case (Cons c cs)
  let ?run = "takeWhile (\<lambda>d. d = UNDERSCORE) (c # cs)"
  show ?case
  proof (cases "3 \<le> length ?run")
    case True
    with Cons.prems have e: "before = []" "m = ?run" "after = drop (length ?run) (c # cs)"
      by (auto simp: Let_def split: if_splits)
    have 1: "c # cs = ?run @ dropWhile (\<lambda>d. d = UNDERSCORE) (c # cs)" by simp
    have 2: "drop (length ?run) (c # cs) = dropWhile (\<lambda>d. d = UNDERSCORE) (c # cs)"
      by (metis dropWhile_eq_drop)
    have 3: "set ?run \<subseteq> {UNDERSCORE}" using set_takeWhileD[of _ "\<lambda>d. d = UNDERSCORE" "c # cs"] by blast
    have 4: "dropWhile (\<lambda>d. d = UNDERSCORE) (c # cs) = [] \<or> hd (dropWhile (\<lambda>d. d = UNDERSCORE) (c # cs)) \<noteq> UNDERSCORE"
      using hd_dropWhile[of "\<lambda>d. d = UNDERSCORE" "c # cs"] by blast
    show ?thesis unfolding e 2 using 1 3 4 True by auto
  next
    case False
    with Cons.prems obtain b' where
      r: "UNDERSCORE_RE_search cs = Some (b', m, after)" and b: "before = c # b'"
      by (auto simp: Let_def split: if_splits)
    from Cons.IH[OF r] b show ?thesis by simp
  qed
qed

section \<open>Blank paragraphs\<close>

lemma fill_paragraph_blank:
  "strip (paragraph_text doc p) = [] \<Longrightarrow> fill_paragraph doc p value = Inr (False, doc)"
  by (simp add: fill_paragraph_def)

definition nonblank_match :: "document \<Rightarrow> Match option \<Rightarrow> bool" where
  "nonblank_match doc best =
     (case best of
        None \<Rightarrow> True
      | Some m \<Rightarrow>
          (case paragraph' m of
             None \<Rightarrow> True
           | Some p \<Rightarrow> p < length (paragraphs doc) \<and> strip (paragraph_text doc p) \<noteq> []))"

lemma scan_paragraph_nonblank:
  "nonblank_match doc best \<Longrightarrow> p < length (paragraphs doc) \<Longrightarrow>
   nonblank_match doc (scan_paragraph lower doc anchor_n p best)"
  by (auto simp: nonblank_match_def scan_paragraph_def better_def paragraph_match_def Let_def
      split: option.splits)

lemma scan_cell_nonblank:
  "nonblank_match doc best \<Longrightarrow> nonblank_match doc (scan_cell lower doc anchor_n x best)"
  by (auto simp: nonblank_match_def scan_cell_def better_def cell_match_def Let_def
      split: option.splits prod.splits)

lemma fold_scan_paragraph_nonblank:
  "nonblank_match doc best \<Longrightarrow> set ps \<subseteq> {..<length (paragraphs doc)} \<Longrightarrow>
   nonblank_match doc (fold (scan_paragraph lower doc anchor_n) ps best)"
  by (induction ps arbitrary: best) (auto simp: scan_paragraph_nonblank)

lemma fold_scan_cell_nonblank:
  "nonblank_match doc best \<Longrightarrow>
   nonblank_match doc (fold (scan_cell lower doc anchor_n) xs best)"
  by (induction xs arbitrary: best) (auto simp: scan_cell_nonblank)

lemma find_best_anchor_nonblank:
  assumes "find_best_anchor lower doc anchor min_score = Some m" "paragraph' m = Some p"
  shows "p < length (paragraphs doc) \<and> strip (paragraph_text doc p) \<noteq> []"
proof -
  let ?b1 = "fold (scan_paragraph lower doc (norm_str lower anchor)) (iter_paragraphs doc) None"
  let ?b2 = "fold (scan_cell lower doc (norm_str lower anchor)) (iter_cells doc) ?b1"
  have "nonblank_match doc ?b1"
    by (rule fold_scan_paragraph_nonblank) (auto simp: nonblank_match_def iter_paragraphs_def)
  then have "nonblank_match doc ?b2" by (rule fold_scan_cell_nonblank)
  moreover from assms(1) have "?b2 = Some m"
    by (auto simp: find_best_anchor_def Let_def split: option.splits if_splits)
  ultimately show ?thesis using assms(2) by (simp add: nonblank_match_def)
qed

text \<open>
  Claim C10. A call of \<open>fill_paragraph\<close> on a paragraph whose text is blank (empty or
  only whitespace) returns \<open>False\<close> and leaves the document as it is. The resolver never
  hands such a paragraph over: the paragraph of a match it returns is a paragraph of the
  document whose text is not blank.
\<close>

theorem blank_paragraph_not_filled:
  "(strip (paragraph_text doc p) = [] \<longrightarrow> fill_paragraph doc p value = Inr (False, doc)) \<and>
   (find_best_anchor lower doc anchor min_score = Some m \<longrightarrow> paragraph' m = Some q \<longrightarrow>
      q < length (paragraphs doc) \<and> strip (paragraph_text doc q) \<noteq> [])"
  using fill_paragraph_blank find_best_anchor_nonblank by blast

theorem blank_paragraph_not_filled_witness:
  "fill_paragraph ex_doc 1 (ustr ''x'') = Inr (False, ex_doc) \<and>
   0 < length (paragraphs ex_doc) \<and> strip (paragraph_text ex_doc 0) \<noteq> []"
proof -
  have a: "strip (paragraph_text ex_doc 1) = []"
    by code_simp
  have b: "find_best_anchor ascii_lower ex_doc (ustr ''Full Name'') (62 / 100)
             = Some (paragraph_match (95 / 100) 0)"
    by code_simp
  have c: "paragraph' (paragraph_match (95 / 100) 0) = Some 0"
    by (simp add: paragraph_match_def)
  from blank_paragraph_not_filled
         [of ex_doc 1 "ustr ''x''" ascii_lower "ustr ''Full Name''" "62 / 100"
             "paragraph_match (95 / 100) 0" 0]
    a b c
  show ?thesis by blast
qed

section \<open>What the resolver returns\<close>

text \<open>
  \<open>candidates\<close> lists what the two loops of \<open>find_best_anchor\<close> score, in the order
  they score it: the paragraphs whose text is not blank, in document order, then the
  cells whose text is not blank, in the order of \<open>iter_cells\<close>. Each entry is the match
  the loop would store for that region. \<open>cell_before\<close> is the order of cells by table,
  then row, then column.
\<close>

definition candidates :: "(pystr \<Rightarrow> pystr) \<Rightarrow> document \<Rightarrow> pystr \<Rightarrow> Match list" where
  "candidates lower doc anchor_n =
     map (\<lambda>p. paragraph_match (boosted_score lower anchor_n (paragraph_text doc p)) p)
       (filter (\<lambda>p. strip (paragraph_text doc p) \<noteq> []) (iter_paragraphs doc)) @
     map (\<lambda>x. cell_match (boosted_score lower anchor_n (cell_text doc (fst (snd x)))) x)
       (filter (\<lambda>x. strip (cell_text doc (fst (snd x))) \<noteq> []) (iter_cells doc))"

definition cell_before :: "cell_ref \<Rightarrow> cell_ref \<Rightarrow> bool" where
  "cell_before a b =
     (case a of (t, r, c) \<Rightarrow> case b of (t', r', c') \<Rightarrow>
        t < t' \<or> (t = t' \<and> (r < r' \<or> (r = r' \<and> c < c'))))"

lemma cell_before_iff:
  "cell_before (t, r, c) (t', r', c') \<longleftrightarrow>
     t < t' \<or> (t = t' \<and> (r < r' \<or> (r = r' \<and> c < c')))"
  by (simp add: cell_before_def)

lemma fold_scan_paragraph:
  "fold (scan_paragraph lower doc an) ps best =
   fold (\<lambda>m b. better b m)
     (map (\<lambda>p. paragraph_match (boosted_score lower an (paragraph_text doc p)) p)
        (filter (\<lambda>p. strip (paragraph_text doc p) \<noteq> []) ps)) best"
  by (induction ps arbitrary: best) (simp_all add: scan_paragraph_def Let_def)

lemma fold_scan_cell:
  "fold (scan_cell lower doc an) xs best =
   fold (\<lambda>m b. better b m)
     (map (\<lambda>x. cell_match (boosted_score lower an (cell_text doc (fst (snd x)))) x)
        (filter (\<lambda>x. strip (cell_text doc (fst (snd x))) \<noteq> []) xs)) best"
  by (induction xs arbitrary: best) (simp_all add: scan_cell_def Let_def)

lemma scan_is_fold_better:
  "fold (scan_cell lower doc an) (iter_cells doc)
     (fold (scan_paragraph lower doc an) (iter_paragraphs doc) None) =
   fold (\<lambda>m b. better b m) (candidates lower doc an) None"
  by (simp add: candidates_def fold_scan_paragraph fold_scan_cell)

lemma fold_better_best:
  assumes "cs \<noteq> []"
  shows "\<exists>i<length cs. fold (\<lambda>m b. better b m) cs None = Some (cs ! i)
           \<and> (\<forall>j<length cs. score (cs ! j) \<le> score (cs ! i))
           \<and> (\<forall>j<i. score (cs ! j) < score (cs ! i))"
  using assms
proof (induction cs rule: rev_induct)
  case Nil
  then show ?case by simp
next
  case (snoc x xs)
  show ?case
  proof (cases "xs = []")
    case True
    then show ?thesis by (simp add: better_def)
  next
    case False
    from snoc.IH[OF False] obtain i where i: "i < length xs"
      "fold (\<lambda>m b. better b m) xs None = Some (xs ! i)"
      "\<forall>j<length xs. score (xs ! j) \<le> score (xs ! i)"
      "\<forall>j<i. score (xs ! j) < score (xs ! i)" by blast
    show ?thesis
    proof (cases "score x > score (xs ! i)")
      case True
      have "fold (\<lambda>m b. better b m) (xs @ [x]) None = Some ((xs @ [x]) ! length xs)"
        using i(2) True by (simp add: better_def)
      moreover have "\<forall>j<length (xs @ [x]). score ((xs @ [x]) ! j) \<le> score ((xs @ [x]) ! length xs)"
        using i(3) True by (auto simp: nth_append less_Suc_eq intro: less_imp_le order.trans)
      moreover have "\<forall>j<length xs. score ((xs @ [x]) ! j) < score ((xs @ [x]) ! length xs)"
        using i(3) True by (auto simp: nth_append)
      ultimately show ?thesis by (intro exI[of _ "length xs"]) simp
    next
      case False
      have "fold (\<lambda>m b. better b m) (xs @ [x]) None = Some ((xs @ [x]) ! i)"
        using i(1,2) False by (simp add: better_def nth_append)
      moreover have "\<forall>j<length (xs @ [x]). score ((xs @ [x]) ! j) \<le> score ((xs @ [x]) ! i)"
        using i(1,3) False by (auto simp: nth_append less_Suc_eq)
      moreover have "\<forall>j<i. score ((xs @ [x]) ! j) < score ((xs @ [x]) ! i)"
        using i(1,4) by (auto simp: nth_append)
      ultimately show ?thesis using i(1) by (intro exI[of _ i]) simp
    qed
  qed
qed

lemma iter_cells_sorted:
  "sorted_wrt cell_before (map (\<lambda>x. fst (snd x)) (iter_cells doc))"
proof -
  have cols: "sorted_wrt cell_before (map (\<lambda>c. (t, r, c)) [0..<n])" for t r n
    by (induction n) (auto simp: sorted_wrt_append cell_before_iff)
  have rows: "sorted_wrt cell_before
       (concat (map (\<lambda>r. map (\<lambda>c. (t, r, c)) [0..<k r]) [0..<n]))
     \<and> (\<forall>a \<in> set (concat (map (\<lambda>r. map (\<lambda>c. (t, r, c)) [0..<k r]) [0..<n])).
           fst a = t \<and> fst (snd a) < n)" for t n and k :: "nat \<Rightarrow> nat"
    by (induction n) (auto simp: sorted_wrt_append cell_before_iff cols)
  have tabs: "sorted_wrt cell_before
       (concat (map (\<lambda>t. concat (map (\<lambda>r. map (\<lambda>c. (t, r, c)) [0..<k t r]) [0..<h t])) [0..<n]))
     \<and> (\<forall>a \<in> set (concat (map (\<lambda>t. concat (map (\<lambda>r. map (\<lambda>c. (t, r, c)) [0..<k t r]) [0..<h t])) [0..<n])).
           fst a < n)" for n and k :: "nat \<Rightarrow> nat \<Rightarrow> nat" and h :: "nat \<Rightarrow> nat"
  proof (induction n)
    case 0
    then show ?case by simp
  next
    case (Suc n)
    from rows[of n "k n" "h n"] Suc show ?case
      by (fastforce simp: sorted_wrt_append cell_before_iff)
  qed
  have "map (\<lambda>x. fst (snd x)) (iter_cells doc) =
     concat (map (\<lambda>t. concat (map (\<lambda>r. map (\<lambda>c. (t, r, c))
        [0..<length (tables doc ! t ! r)]) [0..<length (tables doc ! t)])) [0..<length (tables doc)])"
    by (simp add: iter_cells_def map_concat comp_def)
  with tabs show ?thesis by simp
qed


lemma find_best_anchor_scan:
  "(let cs = candidates lower doc (norm_str lower anchor) in
     (find_best_anchor lower doc anchor (62 / 100) = None
        \<longleftrightarrow> (\<forall>m \<in> set cs. score m < 62 / 100)) \<and>
     (\<forall>m. find_best_anchor lower doc anchor (62 / 100) = Some m \<longrightarrow>
        (\<exists>i<length cs. m = cs ! i \<and> 62 / 100 \<le> score m
           \<and> (\<forall>j<length cs. score (cs ! j) \<le> score m)
           \<and> (\<forall>j<i. score (cs ! j) < score m))))
   \<and> sorted_wrt cell_before (map (\<lambda>x. fst (snd x)) (iter_cells doc))"
proof -
  define cs where "cs = candidates lower doc (norm_str lower anchor)"
  define best where "best = fold (\<lambda>m b. better b m) cs None"
  have f: "find_best_anchor lower doc anchor (62 / 100) =
      (case best of None \<Rightarrow> None | Some b \<Rightarrow> if score b < 62 / 100 then None else best)"
    unfolding find_best_anchor_def Let_def scan_is_fold_better best_def cs_def ..
  have "(find_best_anchor lower doc anchor (62 / 100) = None
        \<longleftrightarrow> (\<forall>m \<in> set cs. score m < 62 / 100)) \<and>
     (\<forall>m. find_best_anchor lower doc anchor (62 / 100) = Some m \<longrightarrow>
        (\<exists>i<length cs. m = cs ! i \<and> 62 / 100 \<le> score m
           \<and> (\<forall>j<length cs. score (cs ! j) \<le> score m)
           \<and> (\<forall>j<i. score (cs ! j) < score m)))"
  proof (cases "cs = []")
    case True
    then have "best = None" by (simp add: best_def)
    with True f show ?thesis by simp
  next
    case False
    from fold_better_best[OF False] obtain i where i: "i < length cs"
      "best = Some (cs ! i)"
      "\<forall>j<length cs. score (cs ! j) \<le> score (cs ! i)"
      "\<forall>j<i. score (cs ! j) < score (cs ! i)"
      unfolding best_def by blast
    have all: "(\<forall>m \<in> set cs. score m < 62 / 100) \<longleftrightarrow> score (cs ! i) < 62 / 100"
    proof
      assume "\<forall>m \<in> set cs. score m < 62 / 100"
      with i(1) show "score (cs ! i) < 62 / 100" by simp
    next
      assume a: "score (cs ! i) < 62 / 100"
      show "\<forall>m \<in> set cs. score m < 62 / 100"
      proof
        fix m assume "m \<in> set cs"
        then obtain j where "j < length cs" "m = cs ! j" by (auto simp: in_set_conv_nth)
        with i(3) a show "score m < 62 / 100" by (metis le_less_trans)
      qed
    qed
    show ?thesis
    proof (cases "score (cs ! i) < 62 / 100")
      case True
      with f i(2) all show ?thesis by simp
    next
      case False
      with f i(2) have "find_best_anchor lower doc anchor (62 / 100) = Some (cs ! i)" by simp
      with False all i show ?thesis by (auto simp: not_less)
    qed
  qed
  then show ?thesis
    using iter_cells_sorted unfolding cs_def Let_def by blast
qed

text \<open>
  Claim C1. \<open>find_best_anchor\<close> scores the non-blank paragraphs in document order, then
  the non-blank cells in (table, row, column) order. It returns \<open>None\<close> exactly when
  every scored region has a boosted score below 0.62 (in particular when there is no
  such region). Otherwise it returns the match of a region whose score is the highest,
  and among the regions with that score the one scored first: every region scored
  before it has a strictly lower score.
\<close>

theorem find_best_anchor_first_best:
  "(let cs = candidates lower doc (norm_str lower anchor) in
     (find_best_anchor lower doc anchor (62 / 100) = None
        \<longleftrightarrow> (\<forall>m \<in> set cs. score m < 62 / 100)) \<and>
     (\<forall>m. find_best_anchor lower doc anchor (62 / 100) = Some m \<longrightarrow>
        (\<exists>i<length cs. m = cs ! i \<and> 62 / 100 \<le> score m
           \<and> (\<forall>j<length cs. score (cs ! j) \<le> score m)
           \<and> (\<forall>j<i. score (cs ! j) < score m))))
   \<and> sorted_wrt cell_before (map (\<lambda>x. fst (snd x)) (iter_cells doc))"
  by (rule find_best_anchor_scan)

theorem find_best_anchor_first_best_witness:
  "find_best_anchor ascii_lower ex_doc (ustr ''Passport'') (62 / 100) = None \<and>
   (\<exists>i<length (candidates ascii_lower ex_doc (norm_str ascii_lower (ustr ''Full Name''))).
      paragraph_match (95 / 100) 0 =
        candidates ascii_lower ex_doc (norm_str ascii_lower (ustr ''Full Name'')) ! i)"
proof -
  have e1: "find_best_anchor ascii_lower ex_doc (ustr ''Full Name'') (62 / 100)
              = Some (paragraph_match (95 / 100) 0)"
    by code_simp
  have e2: "\<forall>m \<in> set (candidates ascii_lower ex_doc (norm_str ascii_lower (ustr ''Passport''))).
              score m < 62 / 100"
    by code_simp
  from find_best_anchor_first_best[of ascii_lower ex_doc "ustr ''Passport''"] e2
  have "find_best_anchor ascii_lower ex_doc (ustr ''Passport'') (62 / 100) = None"
    unfolding Let_def by blast
  moreover from find_best_anchor_first_best[of ascii_lower ex_doc "ustr ''Full Name''"] e1
  have "\<exists>i<length (candidates ascii_lower ex_doc (norm_str ascii_lower (ustr ''Full Name''))).
      paragraph_match (95 / 100) 0 =
        candidates ascii_lower ex_doc (norm_str ascii_lower (ustr ''Full Name'')) ! i"
    unfolding Let_def by blast
  ultimately show ?thesis by blast
qed

text \<open>\<open>match_text\<close> is the text of the region a match points to.\<close>

definition match_text :: "document \<Rightarrow> Match \<Rightarrow> pystr" where
  "match_text doc m =
     (case paragraph' m of
        Some p \<Rightarrow> paragraph_text doc p
      | None \<Rightarrow> (case cell m of Some a \<Rightarrow> cell_text doc a | None \<Rightarrow> []))"

lemma candidates_score:
  "c \<in> set (candidates lower doc an) \<Longrightarrow>
     score c = boosted_score lower an (match_text doc c) \<and> strip (match_text doc c) \<noteq> []"
  by (auto simp: candidates_def match_text_def paragraph_match_def cell_match_def)

lemma iter_cells_shape: "x \<in> set (iter_cells doc) \<Longrightarrow> x = (fst (fst (snd x)), fst (snd x), snd (fst (snd x)))"
  by (auto simp: iter_cells_def)

lemma candidates_same_region:
  assumes "m \<in> set (candidates lower doc an)" "n \<in> set (candidates lower doc an)"
    and "paragraph' m = paragraph' n" "cell m = cell n"
  shows "m = n"
proof -
  from assms(1) consider p where "m = paragraph_match (boosted_score lower an (paragraph_text doc p)) p"
    | x where "x \<in> set (iter_cells doc)" "m = cell_match (boosted_score lower an (cell_text doc (fst (snd x)))) x"
    by (auto simp: candidates_def)
  then show ?thesis
  proof cases
    case 1
    with assms(2,3) show ?thesis
      by (auto simp: candidates_def paragraph_match_def cell_match_def split: prod.splits)
  next
    case 2
    from assms(2) 2(2) assms(3) obtain y where y: "y \<in> set (iter_cells doc)"
      "n = cell_match (boosted_score lower an (cell_text doc (fst (snd y)))) y"
      by (auto simp: candidates_def paragraph_match_def cell_match_def split: prod.splits)
    from 2(2) y(2) assms(4) have "fst (snd x) = fst (snd y)"
      by (auto simp: cell_match_def split: prod.splits)
    with iter_cells_shape[OF 2(1)] iter_cells_shape[OF y(1)] have "x = y" by (metis)
    with 2(2) y(2) show ?thesis by simp
  qed
qed

lemma boosted_score_contains:
  "an \<noteq> [] \<Longrightarrow> str_in an (norm_str lower t) \<Longrightarrow> 95 / 100 \<le> boosted_score lower an t"
  by (simp add: boosted_score_def Let_def)

lemma boosted_score_plain:
  "\<not> str_in an (norm_str lower t) \<Longrightarrow> boosted_score lower an t = sim lower an t"
  by (simp add: boosted_score_def Let_def)

text \<open>
  Claim C2. Let the normalised anchor be non-empty and occur as a substring of the
  normalised text of a non-blank region \<open>c\<close>. Then the score of \<open>c\<close> is at least 0.95, the
  resolver returns a match, whose score is at least that of \<open>c\<close>, and the region it
  returns is no region that does not contain the anchor and whose raw similarity is
  below the score of \<open>c\<close>.
\<close>

theorem substring_boost:
  assumes "an = norm_str lower anchor" "an \<noteq> []"
    and "c \<in> set (candidates lower doc an)"
    and "str_in an (norm_str lower (match_text doc c))"
  shows "95 / 100 \<le> score c \<and>
    (\<exists>m. find_best_anchor lower doc anchor (62 / 100) = Some m
        \<and> m \<in> set (candidates lower doc an) \<and> score c \<le> score m
        \<and> (\<forall>n \<in> set (candidates lower doc an).
              \<not> str_in an (norm_str lower (match_text doc n))
              \<and> sim lower an (match_text doc n) < score c
              \<longrightarrow> (paragraph' m, cell m) \<noteq> (paragraph' n, cell n)))"
proof -
  let ?cs = "candidates lower doc an"
  have sc: "95 / 100 \<le> score c"
    using candidates_score[OF assms(3)] boosted_score_contains[OF assms(2,4)] by simp
  have "\<not> (\<forall>m \<in> set ?cs. score m < 62 / 100)"
    using assms(3) sc by (auto simp: not_less intro!: bexI[of _ c])
  with find_best_anchor_scan[of lower doc anchor]
  obtain m where m: "find_best_anchor lower doc anchor (62 / 100) = Some m"
    unfolding Let_def assms(1)[symmetric] by (cases "find_best_anchor lower doc anchor (62 / 100)") auto
  with find_best_anchor_scan[of lower doc anchor]
  obtain i where i: "i < length ?cs" "m = ?cs ! i" "\<forall>j<length ?cs. score (?cs ! j) \<le> score m"
    unfolding Let_def assms(1)[symmetric] by blast
  have mem: "m \<in> set ?cs" using i(1,2) by simp
  have le: "score n \<le> score m" if "n \<in> set ?cs" for n
    using that i(3) by (auto simp: in_set_conv_nth)
  have "(paragraph' m, cell m) \<noteq> (paragraph' n, cell n)"
    if n: "n \<in> set ?cs" "\<not> str_in an (norm_str lower (match_text doc n))"
      "sim lower an (match_text doc n) < score c" for n
  proof
    assume "(paragraph' m, cell m) = (paragraph' n, cell n)"
    with candidates_same_region[OF mem n(1)] have "m = n" by simp
    moreover have "score n = sim lower an (match_text doc n)"
      using candidates_score[OF n(1)] boosted_score_plain[OF n(2)] by simp
    ultimately show False using n(3) le[OF assms(3)] by simp
  qed
  with sc m mem le[OF assms(3)] show ?thesis by blast
qed

theorem substring_boost_witness:
  "norm_str ascii_lower (ustr ''Full Name'') \<noteq> [] \<and>
   paragraph_match (95 / 100) 0
     \<in> set (candidates ascii_lower ex_doc (norm_str ascii_lower (ustr ''Full Name''))) \<and>
   str_in (norm_str ascii_lower (ustr ''Full Name''))
     (norm_str ascii_lower (match_text ex_doc (paragraph_match (95 / 100) 0))) \<and>
   (\<exists>m. find_best_anchor ascii_lower ex_doc (ustr ''Full Name'') (62 / 100) = Some m
        \<and> 95 / 100 \<le> score m)"
proof -
  have h1: "norm_str ascii_lower (ustr ''Full Name'') \<noteq> []"
    by code_simp
  have h2: "paragraph_match (95 / 100) 0
     \<in> set (candidates ascii_lower ex_doc (norm_str ascii_lower (ustr ''Full Name'')))"
    by code_simp
  have h3: "str_in (norm_str ascii_lower (ustr ''Full Name''))
     (norm_str ascii_lower (match_text ex_doc (paragraph_match (95 / 100) 0)))"
    by code_simp
  from substring_boost[OF refl h1 h2 h3] h1 h2 h3 show ?thesis
    by (meson order_trans)
qed

section \<open>Reading back what was written\<close>

text \<open>
  A text is \<open>readable\<close> when the assignment stores it as it is: it holds no character
  that XML refuses and no carriage return. The placeholder dash is readable, and so is
  every text made of parts of readable texts.
\<close>

lemma set_paragraph_text_twice:
  "set_paragraph_text (set_paragraph_text doc q s) q t = set_paragraph_text doc q t"
  by (simp add: set_paragraph_text_def)

lemma paragraph_text_set:
  "q < length (paragraphs doc) \<Longrightarrow> paragraph_text (set_paragraph_text doc q s) q = s"
  by (simp add: set_paragraph_text_def paragraph_text_def)

lemma set_cell_text_twice:
  "set_cell_text (set_cell_text doc c s) c t = set_cell_text doc c t"
  by (cases c; cases "fst c < length (tables doc)";
      cases "fst (snd c) < length (tables doc ! fst c)")
     (simp_all add: set_cell_text_def list_update_beyond not_less)

lemma cell_text_set:
  "t < length (tables doc) \<Longrightarrow> r < length (tables doc ! t) \<Longrightarrow> c < length (tables doc ! t ! r) \<Longrightarrow>
   cell_text (set_cell_text doc (t, r, c) s) (t, r, c) = s"
  by (simp add: set_cell_text_def cell_text_def)

lemma readable_iff: "readable s \<longleftrightarrow> (\<forall>c \<in> set s. xml_char c \<and> c \<noteq> 13)"
  by (auto simp: readable_def list_all_iff)

lemma readable_subset: "readable s \<Longrightarrow> set t \<subseteq> set s \<Longrightarrow> readable t"
  by (auto simp: readable_iff)

lemma readable_append: "readable (a @ b) \<longleftrightarrow> readable a \<and> readable b"
  by (auto simp: readable_iff)

lemma readable_Cons: "readable (c # s) \<longleftrightarrow> xml_char c \<and> c \<noteq> 13 \<and> readable s"
  by (auto simp: readable_iff)

lemma readable_Nil: "readable []"
  by (simp add: readable_iff)

lemma readable_dash: "readable EM_DASH"
  by (simp add: readable_iff EM_DASH_def xml_char_def)

lemma readable_or_dash: "readable value \<Longrightarrow> readable (or_dash value)"
  by (simp add: or_dash_def readable_dash)

lemma xml_char_consts: "xml_char 32" "xml_char COLON" "(32::int) \<noteq> 13" "COLON \<noteq> 13"
  by (simp_all add: xml_char_def COLON_def)

lemma set_rstrip: "set (rstrip s) \<subseteq> set s"
  unfolding rstrip_def using set_dropWhileD[of _ isspace "rev s"] by auto

lemma set_strip: "set (strip s) \<subseteq> set s"
  unfolding strip_def lstrip_def using set_dropWhileD[of _ isspace "rstrip s"] set_rstrip[of s]
  by auto

lemma set_split_colon_left: "set (fst (split_colon s)) \<subseteq> set s"
  unfolding split_colon_def using set_takeWhileD[of _ "\<lambda>c. c \<noteq> COLON" s] by auto

lemma assign_text_readable: "readable s \<Longrightarrow> assign_text s = Inr s"
proof -
  assume r: "readable s"
  then have "stored_text s = s"
    unfolding stored_text_def by (intro map_idI) (auto simp: readable_iff)
  with r show ?thesis by (simp add: assign_text_def readable_def)
qed

lemma write_paragraph_readable:
  "readable s \<Longrightarrow> write_paragraph doc p s = Inr (set_paragraph_text doc p s)"
  by (simp add: write_paragraph_def assign_text_readable)

lemma write_cell_readable:
  "readable s \<Longrightarrow> write_cell doc a s = Inr (set_cell_text doc a s)"
  by (simp add: write_cell_def assign_text_readable)

lemma readable_run:
  assumes "UNDERSCORE_RE_search s = Some (before, run, after)" "readable s" "readable v"
  shows "readable (before @ v @ after)"
proof -
  from search_Some[OF assms(1)] have "s = before @ run @ after" by simp
  with assms(2,3) show ?thesis by (simp add: readable_append)
qed

text \<open>
  A text is blank when all its characters are whitespace. A text that holds the
  placeholder dash is not blank, and the dash is no underscore run.
\<close>

lemma or_dash_empty: "or_dash [] = EM_DASH"
  by (simp add: or_dash_def)

lemma or_dash_dash: "or_dash EM_DASH = EM_DASH"
  by (simp add: or_dash_def)

lemma strip_Nil_iff: "strip s = [] \<longleftrightarrow> (\<forall>c \<in> set s. isspace c)"
proof
  assume "strip s = []"
  then have a: "\<forall>c \<in> set (dropWhile isspace (rev s)). isspace c"
    by (simp add: strip_def lstrip_def rstrip_def dropWhile_eq_Nil_conv)
  have "dropWhile isspace (rev s) = []"
  proof (rule ccontr)
    assume n: "dropWhile isspace (rev s) \<noteq> []"
    then have "\<not> isspace (hd (dropWhile isspace (rev s)))"
      by (rule hd_dropWhile)
    moreover have "hd (dropWhile isspace (rev s)) \<in> set (dropWhile isspace (rev s))"
      using n by (rule hd_in_set)
    ultimately show False using a by blast
  qed
  then show "\<forall>c \<in> set s. isspace c"
    by (simp add: dropWhile_eq_Nil_conv)
next
  assume "\<forall>c \<in> set s. isspace c"
  then have "\<forall>c \<in> set (rev s). isspace c" by simp
  then have d: "dropWhile isspace (rev s) = []"
    unfolding dropWhile_eq_Nil_conv .
  show "strip s = []"
    unfolding strip_def lstrip_def rstrip_def d by simp
qed

lemma strip_dash: "strip (before @ EM_DASH @ after) \<noteq> []"
  by (simp add: strip_Nil_iff EM_DASH_def isspace_def)

lemma run_not_dash:
  assumes "UNDERSCORE_RE_search s = Some (before, run, after)"
  shows "run \<noteq> EM_DASH" "before @ EM_DASH @ after \<noteq> s"
proof -
  from search_Some[OF assms] have s: "s = before @ run @ after" "3 \<le> length run"
    by simp_all
  from s(2) show "run \<noteq> EM_DASH" by (auto simp: EM_DASH_def)
  then show "before @ EM_DASH @ after \<noteq> s" by (subst s(1)) simp
qed

section \<open>The strategies of a paragraph\<close>

text \<open>
  \<open>idx\<close> is \<open>-1\<close> whatever the document, so step 3 of \<open>fill_paragraph\<close> never fills the
  next paragraph: from step 3 on, the function appends to the matched paragraph.
\<close>

lemma fill_next_or_append_append:
  "fill_next_or_append doc p original value =
     (case write_paragraph doc p (rstrip original @ [32] @ or_dash value) of
        Inl e \<Rightarrow> Inl e
      | Inr doc' \<Rightarrow> Inr (True, doc'))"
  by (simp add: fill_next_or_append_def paragraph_index_def)

text \<open>
  The four strategies of a paragraph, as a chain of preconditions and writes in a fixed
  order, to compare \<open>fill_paragraph\<close> with. \<open>strategy_applies\<close> is the precondition of a
  strategy for the value \<open>v\<close> to insert (the value, or the dash for an empty value), and
  \<open>strategy_writes\<close> is the paragraph it writes and the text it writes there:
  \<^item> underscore fill applies when the text has a run of three underscores or more and
    \<open>v\<close> is not that very run, and replaces the first run by \<open>v\<close>;
  \<^item> colon fill applies when the text has a colon and what follows the first colon is
    blank, holds an underscore run or is one dash; it writes the label, a colon, a space
    and \<open>v\<close>;
  \<^item> next-paragraph fill applies when there is a next paragraph that is blank or holds
    an underscore run; it replaces the first run of that paragraph by \<open>v\<close>, and writes
    \<open>v\<close> alone when the result is blank;
  \<^item> the append fallback always applies and appends a space and \<open>v\<close>.
\<close>

datatype strategy = Underscore_fill | Colon_fill | Next_paragraph_fill | Append_fallback

definition strategy_chain :: "strategy list" where
  "strategy_chain = [Underscore_fill, Colon_fill, Next_paragraph_fill, Append_fallback]"

fun strategy_applies :: "strategy \<Rightarrow> document \<Rightarrow> nat \<Rightarrow> pystr \<Rightarrow> bool" where
  "strategy_applies Underscore_fill doc p v =
     (case UNDERSCORE_RE_search (paragraph_text doc p) of
        None \<Rightarrow> False
      | Some (before, m, after) \<Rightarrow> m \<noteq> v)"
| "strategy_applies Colon_fill doc p v =
     (COLON \<in> set (paragraph_text doc p) \<and>
      (let right = snd (split_colon (paragraph_text doc p)) in
       strip right = [] \<or> UNDERSCORE_RE_search right \<noteq> None \<or> strip right \<in> DASHES))"
| "strategy_applies Next_paragraph_fill doc p v =
     (p + 1 < length (paragraphs doc) \<and>
      (strip (paragraph_text doc (p + 1)) = []
       \<or> UNDERSCORE_RE_search (paragraph_text doc (p + 1)) \<noteq> None))"
| "strategy_applies Append_fallback doc p v = True"

fun strategy_writes :: "strategy \<Rightarrow> document \<Rightarrow> nat \<Rightarrow> pystr \<Rightarrow> nat \<times> pystr" where
  "strategy_writes Underscore_fill doc p v =
     (case UNDERSCORE_RE_search (paragraph_text doc p) of
        None \<Rightarrow> (p, paragraph_text doc p)
      | Some (before, m, after) \<Rightarrow> (p, before @ v @ after))"
| "strategy_writes Colon_fill doc p v =
     (p, strip (fst (split_colon (paragraph_text doc p))) @ [COLON, 32] @ v)"
| "strategy_writes Next_paragraph_fill doc p v =
     (let t = (case UNDERSCORE_RE_search (paragraph_text doc (p + 1)) of
                 None \<Rightarrow> paragraph_text doc (p + 1)
               | Some (before, m, after) \<Rightarrow> before @ v @ after)
      in (p + 1, if strip t = [] then v else t))"
| "strategy_writes Append_fallback doc p v = (p, rstrip (paragraph_text doc p) @ [32] @ v)"

text \<open>
  On a value and a text that are readable, the value without a backslash,
  \<open>fill_paragraph\<close> on a paragraph that is not blank returns \<open>True\<close> and performs one
  write, which is the write of underscore fill, of colon fill or of the append fallback:
  the first of the three whose precondition holds. It never performs the write of
  next-paragraph fill.
\<close>

lemma fill_paragraph_literal:
  assumes "92 \<notin> set value" "readable value"
    and "strip (paragraph_text doc p) \<noteq> []" "readable (paragraph_text doc p)"
  shows "fill_paragraph doc p value =
     Inr (True, set_paragraph_text doc p
       (snd (strategy_writes
          (if strategy_applies Underscore_fill doc p (or_dash value) then Underscore_fill
           else if strategy_applies Colon_fill doc p (or_dash value) then Colon_fill
           else Append_fallback) doc p (or_dash value))))"
proof -
  let ?o = "paragraph_text doc p"
  let ?v = "or_dash value"
  have rv: "readable ?v" using assms(2) by (rule readable_or_dash)
  have r: "replace_underscores ?o value =
     Inr (case UNDERSCORE_RE_search ?o of None \<Rightarrow> ?o | Some (before, m, after) \<Rightarrow> before @ ?v @ after)"
    using assms(1) by (rule replace_underscores_literal)
  have ap: "readable (rstrip ?o @ [32] @ ?v)"
    using rv readable_subset[OF assms(4) set_rstrip]
    by (simp add: readable_append readable_Cons readable_Nil xml_char_def)
  have co: "readable (strip (fst (split_colon ?o)) @ [COLON, 32] @ ?v)"
    using rv readable_subset[OF assms(4) subset_trans[OF set_strip set_split_colon_left]]
    by (simp add: readable_append readable_Cons readable_Nil xml_char_def COLON_def)
  have wco: "write_paragraph doc p (strip (fst (split_colon ?o)) @ COLON # 32 # ?v)
      = Inr (set_paragraph_text doc p (strip (fst (split_colon ?o)) @ COLON # 32 # ?v))"
    using write_paragraph_readable[OF co] by simp
  have nx: "fill_next_or_append doc p ?o value =
      Inr (True, set_paragraph_text doc p (rstrip ?o @ [32] @ ?v))"
    unfolding fill_next_or_append_append write_paragraph_readable[OF ap] by simp
  show ?thesis
  proof (cases "strategy_applies Underscore_fill doc p ?v")
    case True
    then obtain b m a where s: "UNDERSCORE_RE_search ?o = Some (b, m, a)" "m \<noteq> ?v"
      by (auto split: option.splits)
    from search_Some[OF s(1)] have o: "?o = b @ m @ a" by simp
    have ne: "b @ ?v @ a \<noteq> ?o" using s(2) by (subst o) simp
    have rd: "readable (b @ ?v @ a)"
      using assms(4) rv by (subst (asm) o) (simp add: readable_append)
    show ?thesis
      using assms(3) True s ne
      by (simp add: fill_paragraph_def Let_def r write_paragraph_readable[OF rd])
  next
    case False
    have same: "(case UNDERSCORE_RE_search ?o of None \<Rightarrow> ?o | Some (before, m, after) \<Rightarrow> before @ ?v @ after) = ?o"
    proof (cases "UNDERSCORE_RE_search ?o")
      case None
      then show ?thesis by simp
    next
      case (Some x)
      obtain b m a where x: "x = (b, m, a)" by (cases x) auto
      with Some False have "m = ?v" by simp
      with search_Some[of ?o b m a] Some x show ?thesis by simp
    qed
    show ?thesis
    proof (cases "strategy_applies Colon_fill doc p ?v")
      case True
      with False assms(3) show ?thesis
        by (simp add: fill_paragraph_def Let_def r same case_prod_beta wco)
    next
      case c: False
      have fp: "fill_paragraph doc p value = fill_next_or_append doc p ?o value"
        using False c assms(3)
        by (auto simp: fill_paragraph_def Let_def r same case_prod_beta)
      show ?thesis
        unfolding fp nx using False c
        by (simp del: strategy_applies.simps)
    qed
  qed
qed

text \<open>
  In the document of the three paragraphs \<open>Signature\<close>, one space and \<open>End\<close>, the
  paragraph after \<open>Signature\<close> is blank; \<open>fill_paragraph\<close> on \<open>Signature\<close> with the value
  \<open>Ann\<close> appends to \<open>Signature\<close> and leaves the blank paragraph as it is. A value with a
  control character, here U+0007, is refused by the assignment, and the call raises.
\<close>

definition doc_signature :: document where
  "doc_signature = \<lparr>paragraphs = [ustr ''Signature'', ustr '' '', ustr ''End''], tables = []\<rparr>"

lemma next_paragraph_not_filled:
  "strategy_applies Next_paragraph_fill doc_signature 0 (ustr ''Ann'') \<and>
   \<not> strategy_applies Underscore_fill doc_signature 0 (ustr ''Ann'') \<and>
   \<not> strategy_applies Colon_fill doc_signature 0 (ustr ''Ann'') \<and>
   fill_paragraph doc_signature 0 (ustr ''Ann'')
     = Inr (True, set_paragraph_text doc_signature 0 (ustr ''Signature Ann''))"
  by code_simp

lemma control_character_raises:
  "fill_paragraph doc_signature 0 [7] = Inl ValueError"
  by code_simp

section \<open>Empty values\<close>

text \<open>
  With the empty string as value, every function inserts the placeholder dash: the
  empty value and the value U+2014 give the same result, on every path.
\<close>

lemma replace_underscores_dash:
  "replace_underscores s [] =
     Inr (case UNDERSCORE_RE_search s of
            None \<Rightarrow> s
          | Some (before, run, after) \<Rightarrow> before @ EM_DASH @ after)"
  using replace_underscores_literal[of "[]" s] unfolding or_dash_empty by simp

lemma replace_underscores_dash':
  "replace_underscores s EM_DASH =
     Inr (case UNDERSCORE_RE_search s of
            None \<Rightarrow> s
          | Some (before, run, after) \<Rightarrow> before @ EM_DASH @ after)"
proof -
  have "92 \<notin> set EM_DASH" by (simp add: EM_DASH_def)
  from replace_underscores_literal[OF this, of s] show ?thesis
    unfolding or_dash_dash .
qed

lemma replace_underscores_empty: "replace_underscores s [] = replace_underscores s EM_DASH"
  by (simp only: replace_underscores_dash replace_underscores_dash')

lemma fill_next_empty: "fill_next doc q [] = fill_next doc q EM_DASH"
  unfolding fill_next_def or_dash_empty or_dash_dash ..

lemma fill_next_or_append_empty:
  "fill_next_or_append doc p original [] = fill_next_or_append doc p original EM_DASH"
  unfolding fill_next_or_append_def fill_next_empty or_dash_empty or_dash_dash ..

lemma fill_paragraph_empty: "fill_paragraph doc p [] = fill_paragraph doc p EM_DASH"
  unfolding fill_paragraph_def replace_underscores_empty fill_next_or_append_empty
    or_dash_empty or_dash_dash ..

lemma fill_table_cell_right_empty:
  "fill_table_cell_right doc m [] = fill_table_cell_right doc m EM_DASH"
  unfolding fill_table_cell_right_def or_dash_empty or_dash_dash ..

text \<open>
  The text that each path writes for the empty value, on a readable text: the
  paragraph fill, the fill of the next paragraph, the cell fill with a right neighbour
  and the cell fallback.
\<close>

lemma fill_paragraph_dash:
  assumes "strip (paragraph_text doc p) \<noteq> []" "readable (paragraph_text doc p)"
  shows "fill_paragraph doc p [] =
     Inr (True, set_paragraph_text doc p
       (case UNDERSCORE_RE_search (paragraph_text doc p) of
          Some (before, run, after) \<Rightarrow> before @ EM_DASH @ after
        | None \<Rightarrow>
            if COLON \<in> set (paragraph_text doc p)
               \<and> (strip (snd (split_colon (paragraph_text doc p))) = []
                  \<or> UNDERSCORE_RE_search (snd (split_colon (paragraph_text doc p))) \<noteq> None
                  \<or> strip (snd (split_colon (paragraph_text doc p))) \<in> DASHES)
            then strip (fst (split_colon (paragraph_text doc p))) @ [COLON, 32] @ EM_DASH
            else rstrip (paragraph_text doc p) @ [32] @ EM_DASH))"
proof -
  have l: "fill_paragraph doc p [] =
     Inr (True, set_paragraph_text doc p
       (snd (strategy_writes
          (if strategy_applies Underscore_fill doc p EM_DASH then Underscore_fill
           else if strategy_applies Colon_fill doc p EM_DASH then Colon_fill
           else Append_fallback) doc p EM_DASH)))"
    using fill_paragraph_literal[of "[]" doc p] assms
    by (simp only: or_dash_empty readable_Nil set_simps empty_iff not_False_eq_True)
  show ?thesis
  proof (cases "UNDERSCORE_RE_search (paragraph_text doc p)")
    case None
    then show ?thesis unfolding l by (auto simp: Let_def)
  next
    case (Some x)
    obtain b m a where x: "x = (b, m, a)" by (cases x) auto
    from run_not_dash(1)[OF Some[unfolded x]] Some x show ?thesis
      unfolding l by simp
  qed
qed

lemma fill_next_dash:
  assumes "q < length (paragraphs doc)" "readable (paragraph_text doc q)"
    and "strip (paragraph_text doc q) = [] \<or> UNDERSCORE_RE_search (paragraph_text doc q) \<noteq> None"
  shows "fill_next doc q [] =
     Inr (True, set_paragraph_text doc q
       (case UNDERSCORE_RE_search (paragraph_text doc q) of
          Some (before, run, after) \<Rightarrow> before @ EM_DASH @ after
        | None \<Rightarrow> EM_DASH))"
proof (cases "UNDERSCORE_RE_search (paragraph_text doc q)")
  case None
  with assms(3) have b: "strip (paragraph_text doc q) = []" by simp
  show ?thesis
    using None b assms(1)
    by (simp add: fill_next_def replace_underscores_dash' or_dash_empty
        write_paragraph_readable[OF assms(2)] write_paragraph_readable[OF readable_dash]
        paragraph_text_set set_paragraph_text_twice)
next
  case (Some x)
  obtain b m a where x: "x = (b, m, a)" by (cases x) auto
  have rd: "readable (b @ EM_DASH @ a)"
    using readable_run[OF Some[unfolded x] assms(2) readable_dash] .
  show ?thesis
    using Some x assms(1)
    by (simp add: fill_next_def replace_underscores_dash' or_dash_empty
        write_paragraph_readable[OF rd] paragraph_text_set strip_dash)
qed

lemma fill_cell_right_dash:
  assumes "table m = Some t" "cell_pos m = Some (r, c)"
    and "r < length (tables doc ! t)" "c + 1 < length (tables doc ! t ! r)"
    and "readable (cell_text doc (t, r, c + 1))"
  shows "fill_table_cell_right doc m [] =
     Inr (True, set_cell_text doc (t, r, c + 1)
       (case UNDERSCORE_RE_search (cell_text doc (t, r, c + 1)) of
          Some (before, run, after) \<Rightarrow> before @ EM_DASH @ after
        | None \<Rightarrow>
            if strip (cell_text doc (t, r, c + 1)) = []
               \<or> strip (cell_text doc (t, r, c + 1)) \<in> DASHES
            then EM_DASH
            else rstrip (cell_text doc (t, r, c + 1)) @ [32] @ EM_DASH))"
proof (cases "UNDERSCORE_RE_search (cell_text doc (t, r, c + 1))")
  case None
  have ra: "readable (rstrip (cell_text doc (t, r, c + 1)) @ 32 # EM_DASH)"
    using readable_subset[OF assms(5) set_rstrip] readable_dash
    by (simp add: readable_append readable_Cons xml_char_consts)
  show ?thesis
    using None assms(1-4) ra
    by (simp add: fill_table_cell_right_def Let_def or_dash_empty
        write_cell_readable readable_dash)
next
  case (Some x)
  obtain b u a where x: "x = (b, u, a)" by (cases x) auto
  have rd: "readable (b @ EM_DASH @ a)"
    using readable_run[OF Some[unfolded x] assms(5) readable_dash] .
  show ?thesis
    using Some x assms(1-4) rd
    by (simp add: fill_table_cell_right_def Let_def or_dash_empty replace_underscores_dash'
        write_cell_readable)
qed

lemma fill_cell_fallback_dash:
  assumes "table m = Some t" "cell_pos m = Some (r, c)" "cell m = Some (t', r', c')"
    and "r < length (tables doc ! t)" "\<not> c + 1 < length (tables doc ! t ! r)"
    and "t' < length (tables doc)" "r' < length (tables doc ! t')"
      "c' < length (tables doc ! t' ! r')"
    and "readable (cell_text doc (t', r', c'))"
  shows "fill_table_cell_right doc m [] =
     Inr (True, set_cell_text doc (t', r', c')
       (case UNDERSCORE_RE_search (cell_text doc (t', r', c')) of
          Some (before, run, after) \<Rightarrow> before @ EM_DASH @ after
        | None \<Rightarrow> rstrip (cell_text doc (t', r', c')) @ [32] @ EM_DASH))"
proof (cases "UNDERSCORE_RE_search (cell_text doc (t', r', c'))")
  case None
  have ra: "readable (rstrip (cell_text doc (t', r', c')) @ 32 # EM_DASH)"
    using readable_subset[OF assms(9) set_rstrip] readable_dash
    by (simp add: readable_append readable_Cons xml_char_consts)
  show ?thesis
    using None assms(1-5) cell_text_set[OF assms(6-8)]
    by (simp add: fill_table_cell_right_def Let_def or_dash_empty replace_underscores_dash'
        write_cell_readable[OF assms(9)] write_cell_readable[OF ra] set_cell_text_twice)
next
  case (Some x)
  obtain b u a where x: "x = (b, u, a)" by (cases x) auto
  have rd: "readable (b @ EM_DASH @ a)"
    using readable_run[OF Some[unfolded x] assms(9) readable_dash] .
  show ?thesis
    using Some x assms(1-5) cell_text_set[OF assms(6-8)] run_not_dash(2)[OF Some[unfolded x]]
    by (simp add: fill_table_cell_right_def Let_def or_dash_empty replace_underscores_dash'
        write_cell_readable[OF rd])
qed

text \<open>
  Claim C7. With the empty string as value, every fill path writes the placeholder dash
  and never the empty string. \<open>replace_underscores\<close>, \<open>fill_paragraph\<close>, the fill of the
  next paragraph and \<open>fill_table_cell_right\<close> do with the empty value exactly what they
  do with the value U+2014, and the text each path writes is, for a readable text at an
  existing position:
  \<^item> \<open>replace_underscores\<close>: the text with its first underscore run replaced by the
    dash (the text itself when it has no run);
  \<^item> \<open>fill_paragraph\<close> on a paragraph that is not blank returns \<open>True\<close>, and the
    paragraph becomes its text with the first run replaced by the dash (underscore
    fill), else the label, a colon, a space and the dash (colon rewrite), else its text
    without trailing whitespace, a space and the dash (append fallback);
  \<^item> the fill of a next paragraph that is blank or holds a run returns \<open>True\<close>, and
    that paragraph becomes its text with the first run replaced by the dash, or the
    dash alone when it was blank;
  \<^item> the cell fill with a right neighbour returns \<open>True\<close>, and the neighbour becomes
    its text with the first run replaced by the dash, else the dash alone when it was
    blank or a dash (cell overwrite), else its text without trailing whitespace, a space
    and the dash;
  \<^item> the cell fallback, without a right neighbour, returns \<open>True\<close>, and the matched
    cell becomes its text with the first run replaced by the dash, else its text
    without trailing whitespace, a space and the dash.
\<close>

theorem empty_value_writes_dash:
  "replace_underscores s [] = replace_underscores s EM_DASH \<and>
   fill_paragraph doc p [] = fill_paragraph doc p EM_DASH \<and>
   fill_next doc q [] = fill_next doc q EM_DASH \<and>
   fill_table_cell_right doc m [] = fill_table_cell_right doc m EM_DASH \<and>
   replace_underscores s [] =
     Inr (case UNDERSCORE_RE_search s of
            None \<Rightarrow> s
          | Some (before, run, after) \<Rightarrow> before @ EM_DASH @ after) \<and>
   (p < length (paragraphs doc) \<longrightarrow> strip (paragraph_text doc p) \<noteq> [] \<longrightarrow>
    readable (paragraph_text doc p) \<longrightarrow>
      fill_paragraph doc p [] =
        Inr (True, set_paragraph_text doc p
          (case UNDERSCORE_RE_search (paragraph_text doc p) of
             Some (before, run, after) \<Rightarrow> before @ EM_DASH @ after
           | None \<Rightarrow>
               if COLON \<in> set (paragraph_text doc p)
                  \<and> (strip (snd (split_colon (paragraph_text doc p))) = []
                     \<or> UNDERSCORE_RE_search (snd (split_colon (paragraph_text doc p))) \<noteq> None
                     \<or> strip (snd (split_colon (paragraph_text doc p))) \<in> DASHES)
               then strip (fst (split_colon (paragraph_text doc p))) @ [COLON, 32] @ EM_DASH
               else rstrip (paragraph_text doc p) @ [32] @ EM_DASH))) \<and>
   (q < length (paragraphs doc) \<longrightarrow> readable (paragraph_text doc q) \<longrightarrow>
    strip (paragraph_text doc q) = [] \<or> UNDERSCORE_RE_search (paragraph_text doc q) \<noteq> None \<longrightarrow>
      fill_next doc q [] =
        Inr (True, set_paragraph_text doc q
          (case UNDERSCORE_RE_search (paragraph_text doc q) of
             Some (before, run, after) \<Rightarrow> before @ EM_DASH @ after
           | None \<Rightarrow> EM_DASH))) \<and>
   (table m = Some t \<longrightarrow> cell_pos m = Some (r, c) \<longrightarrow> t < length (tables doc) \<longrightarrow>
    r < length (tables doc ! t) \<longrightarrow> c + 1 < length (tables doc ! t ! r) \<longrightarrow>
    readable (cell_text doc (t, r, c + 1)) \<longrightarrow>
      fill_table_cell_right doc m [] =
        Inr (True, set_cell_text doc (t, r, c + 1)
          (case UNDERSCORE_RE_search (cell_text doc (t, r, c + 1)) of
             Some (before, run, after) \<Rightarrow> before @ EM_DASH @ after
           | None \<Rightarrow>
               if strip (cell_text doc (t, r, c + 1)) = []
                  \<or> strip (cell_text doc (t, r, c + 1)) \<in> DASHES
               then EM_DASH
               else rstrip (cell_text doc (t, r, c + 1)) @ [32] @ EM_DASH))) \<and>
   (table m = Some t \<longrightarrow> cell_pos m = Some (r, c) \<longrightarrow> cell m = Some (t', r', c') \<longrightarrow>
    r < length (tables doc ! t) \<longrightarrow> \<not> c + 1 < length (tables doc ! t ! r) \<longrightarrow>
    t' < length (tables doc) \<longrightarrow> r' < length (tables doc ! t') \<longrightarrow>
    c' < length (tables doc ! t' ! r') \<longrightarrow> readable (cell_text doc (t', r', c')) \<longrightarrow>
      fill_table_cell_right doc m [] =
        Inr (True, set_cell_text doc (t', r', c')
          (case UNDERSCORE_RE_search (cell_text doc (t', r', c')) of
             Some (before, run, after) \<Rightarrow> before @ EM_DASH @ after
           | None \<Rightarrow> rstrip (cell_text doc (t', r', c')) @ [32] @ EM_DASH)))"
  by (intro conjI impI)
     (rule replace_underscores_empty fill_paragraph_empty fill_next_empty
        fill_table_cell_right_empty replace_underscores_dash
      | (rule fill_paragraph_dash fill_next_dash fill_cell_right_dash fill_cell_fallback_dash;
         assumption))+

theorem empty_value_writes_dash_witness:
  "replace_underscores (ustr ''Full Name: _________'') [] = Inr (ustr ''Full Name: '' @ EM_DASH) \<and>
   fill_paragraph ex_doc 0 [] = Inr (True, set_paragraph_text ex_doc 0 (ustr ''Full Name: '' @ EM_DASH)) \<and>
   fill_paragraph ex_doc 2 [] = Inr (True, set_paragraph_text ex_doc 2 (ustr ''Notes '' @ EM_DASH)) \<and>
   fill_next ex_doc 1 [] = Inr (True, set_paragraph_text ex_doc 1 EM_DASH) \<and>
   fill_table_cell_right ex_doc (cell_match 1 (0, (0, 0, 0), 0, 0)) []
     = Inr (True, set_cell_text ex_doc (0, 0, 1) EM_DASH) \<and>
   fill_table_cell_right ex_doc (cell_match 1 (0, (0, 1, 1), 1, 1)) []
     = Inr (True, set_cell_text ex_doc (0, 1, 1) EM_DASH)"
proof -
  let ?s = "ustr ''Full Name: _________''"
  let ?m = "cell_match 1 (0, (0, 0, 0), 0, 0)"
  let ?m' = "cell_match 1 (0, (0, 1, 1), 1, 1)"
  note a = empty_value_writes_dash[of ?s ex_doc 0 1 ?m 0 0 0 0 1 1]
  note b = empty_value_writes_dash[of ?s ex_doc 2 1 ?m' 0 1 1 0 1 1]
  have s: "(case UNDERSCORE_RE_search ?s of
              None \<Rightarrow> ?s
            | Some (before, run, after) \<Rightarrow> before @ EM_DASH @ after) = ustr ''Full Name: '' @ EM_DASH"
    by code_simp
  have c1: "replace_underscores ?s [] = Inr (ustr ''Full Name: '' @ EM_DASH)"
    using a[THEN conjunct2, THEN conjunct2, THEN conjunct2, THEN conjunct2, THEN conjunct1]
    unfolding s .
  have p0: "0 < length (paragraphs ex_doc)" "strip (paragraph_text ex_doc 0) \<noteq> []"
    "readable (paragraph_text ex_doc 0)"
    by code_simp+
  have p2: "2 < length (paragraphs ex_doc)" "strip (paragraph_text ex_doc 2) \<noteq> []"
    "readable (paragraph_text ex_doc 2)"
    by code_simp+
  have p1: "1 < length (paragraphs ex_doc)" "readable (paragraph_text ex_doc 1)"
    "strip (paragraph_text ex_doc 1) = [] \<or> UNDERSCORE_RE_search (paragraph_text ex_doc 1) \<noteq> None"
    by code_simp+
  have w0: "(case UNDERSCORE_RE_search (paragraph_text ex_doc 0) of
             Some (before, run, after) \<Rightarrow> before @ EM_DASH @ after
           | None \<Rightarrow>
               if COLON \<in> set (paragraph_text ex_doc 0)
                  \<and> (strip (snd (split_colon (paragraph_text ex_doc 0))) = []
                     \<or> UNDERSCORE_RE_search (snd (split_colon (paragraph_text ex_doc 0))) \<noteq> None
                     \<or> strip (snd (split_colon (paragraph_text ex_doc 0))) \<in> DASHES)
               then strip (fst (split_colon (paragraph_text ex_doc 0))) @ [COLON, 32] @ EM_DASH
               else rstrip (paragraph_text ex_doc 0) @ [32] @ EM_DASH) = ustr ''Full Name: '' @ EM_DASH"
    by code_simp
  have w2: "(case UNDERSCORE_RE_search (paragraph_text ex_doc 2) of
             Some (before, run, after) \<Rightarrow> before @ EM_DASH @ after
           | None \<Rightarrow>
               if COLON \<in> set (paragraph_text ex_doc 2)
                  \<and> (strip (snd (split_colon (paragraph_text ex_doc 2))) = []
                     \<or> UNDERSCORE_RE_search (snd (split_colon (paragraph_text ex_doc 2))) \<noteq> None
                     \<or> strip (snd (split_colon (paragraph_text ex_doc 2))) \<in> DASHES)
               then strip (fst (split_colon (paragraph_text ex_doc 2))) @ [COLON, 32] @ EM_DASH
               else rstrip (paragraph_text ex_doc 2) @ [32] @ EM_DASH) = ustr ''Notes '' @ EM_DASH"
    by code_simp
  have w1: "(case UNDERSCORE_RE_search (paragraph_text ex_doc 1) of
             Some (before, run, after) \<Rightarrow> before @ EM_DASH @ after
           | None \<Rightarrow> EM_DASH) = EM_DASH"
    by code_simp
  have c2: "fill_paragraph ex_doc 0 [] = Inr (True, set_paragraph_text ex_doc 0 (ustr ''Full Name: '' @ EM_DASH))"
    using a[THEN conjunct2, THEN conjunct2, THEN conjunct2, THEN conjunct2, THEN conjunct2,
        THEN conjunct1, rule_format, OF p0]
    unfolding w0 .
  have c3: "fill_paragraph ex_doc 2 [] = Inr (True, set_paragraph_text ex_doc 2 (ustr ''Notes '' @ EM_DASH))"
    using b[THEN conjunct2, THEN conjunct2, THEN conjunct2, THEN conjunct2, THEN conjunct2,
        THEN conjunct1, rule_format, OF p2]
    unfolding w2 .
  have c4: "fill_next ex_doc 1 [] = Inr (True, set_paragraph_text ex_doc 1 EM_DASH)"
    using a[THEN conjunct2, THEN conjunct2, THEN conjunct2, THEN conjunct2, THEN conjunct2,
        THEN conjunct2, THEN conjunct1, rule_format, OF p1]
    unfolding w1 .
  have r: "table ?m = Some 0" "cell_pos ?m = Some (0, 0)" "0 < length (tables ex_doc)"
    "0 < length (tables ex_doc ! 0)" "0 + 1 < length (tables ex_doc ! 0 ! 0)"
    "readable (cell_text ex_doc (0, 0, 0 + 1))"
    by code_simp+
  have wr: "(case UNDERSCORE_RE_search (cell_text ex_doc (0, 0, 0 + 1)) of
             Some (before, run, after) \<Rightarrow> before @ EM_DASH @ after
           | None \<Rightarrow>
               if strip (cell_text ex_doc (0, 0, 0 + 1)) = []
                  \<or> strip (cell_text ex_doc (0, 0, 0 + 1)) \<in> DASHES
               then EM_DASH
               else rstrip (cell_text ex_doc (0, 0, 0 + 1)) @ [32] @ EM_DASH) = EM_DASH"
    by code_simp
  have c5: "fill_table_cell_right ex_doc ?m [] = Inr (True, set_cell_text ex_doc (0, 0, 0 + 1) EM_DASH)"
    using a[THEN conjunct2, THEN conjunct2, THEN conjunct2, THEN conjunct2, THEN conjunct2,
        THEN conjunct2, THEN conjunct2, THEN conjunct1, rule_format, OF r]
    unfolding wr .
  have f: "table ?m' = Some 0" "cell_pos ?m' = Some (1, 1)" "cell ?m' = Some (0, 1, 1)"
    "1 < length (tables ex_doc ! 0)" "\<not> 1 + 1 < length (tables ex_doc ! 0 ! 1)"
    "0 < length (tables ex_doc)" "1 < length (tables ex_doc ! 0)"
    "1 < length (tables ex_doc ! 0 ! 1)" "readable (cell_text ex_doc (0, 1, 1))"
    by code_simp+
  have wf: "(case UNDERSCORE_RE_search (cell_text ex_doc (0, 1, 1)) of
             Some (before, run, after) \<Rightarrow> before @ EM_DASH @ after
           | None \<Rightarrow> rstrip (cell_text ex_doc (0, 1, 1)) @ [32] @ EM_DASH) = EM_DASH"
    by code_simp
  have c6: "fill_table_cell_right ex_doc ?m' [] = Inr (True, set_cell_text ex_doc (0, 1, 1) EM_DASH)"
    using b[THEN conjunct2, THEN conjunct2, THEN conjunct2, THEN conjunct2, THEN conjunct2,
        THEN conjunct2, THEN conjunct2, THEN conjunct2, rule_format, OF f]
    unfolding wf .
  from c1 c2 c3 c4 c5 c6 show ?thesis by simp
qed

section \<open>The strategy chain of a paragraph\<close>

text \<open>
  Claim C3, as the code has it. For a paragraph whose text is not blank, and a value
  and a text that are readable, the value without a backslash, \<open>fill_paragraph\<close>
  returns \<open>True\<close>. Take the first of underscore fill, colon fill, next-paragraph fill
  and append fallback, in this order, whose precondition holds, where underscore fill
  applies when the text has a run of three underscores or more that differs from the
  value inserted (the source goes on to the next strategy when the replacement leaves
  the text as it was). When this strategy is not next-paragraph fill, the document
  after the call is the document with the write of this strategy, and no other. For
  the paragraph \<open>Full Name: _________\<close> and the value \<open>Ana Popescu\<close> this is underscore
  fill, and the text becomes \<open>Full Name: Ana Popescu\<close>. What is written when
  next-paragraph fill is the first strategy that applies is left out here, as are a
  value with a backslash, which underscore fill reads as a replacement template, and
  a value or a text that the assignment refuses or changes.
\<close>

theorem paragraph_strategy_chain:
  assumes "strip (paragraph_text doc p) \<noteq> []" "readable (paragraph_text doc p)"
    and "92 \<notin> set value" "readable value"
  shows "\<exists>doc'. fill_paragraph doc p value = Inr (True, doc')
       \<and> (\<forall>s \<in> set strategy_chain.
             strategy_applies s doc p (or_dash value)
           \<and> (\<forall>s' \<in> set (takeWhile (\<lambda>x. x \<noteq> s) strategy_chain).
                \<not> strategy_applies s' doc p (or_dash value))
           \<and> s \<noteq> Next_paragraph_fill
           \<longrightarrow> (\<exists>q t. strategy_writes s doc p (or_dash value) = (q, t)
                  \<and> doc' = set_paragraph_text doc q t))"
proof -
  let ?v = "or_dash value"
  let ?s = "if strategy_applies Underscore_fill doc p ?v then Underscore_fill
           else if strategy_applies Colon_fill doc p ?v then Colon_fill
           else Append_fallback"
  let ?d = "set_paragraph_text doc p (snd (strategy_writes ?s doc p ?v))"
  have f: "fill_paragraph doc p value = Inr (True, ?d)"
    using fill_paragraph_literal[OF assms(3,4,1,2)] .
  have "\<exists>q t. strategy_writes s doc p ?v = (q, t) \<and> ?d = set_paragraph_text doc q t"
    if s: "s \<in> set strategy_chain" "strategy_applies s doc p ?v"
      "\<forall>s' \<in> set (takeWhile (\<lambda>x. x \<noteq> s) strategy_chain). \<not> strategy_applies s' doc p ?v"
      "s \<noteq> Next_paragraph_fill" for s
  proof (cases s)
    case Underscore_fill
    with s(2) show ?thesis by (auto split: option.splits)
  next
    case Colon_fill
    with s(3) have "\<not> strategy_applies Underscore_fill doc p ?v"
      by (simp add: strategy_chain_def)
    with Colon_fill s(2) show ?thesis by (simp del: strategy_applies.simps)
  next
    case Next_paragraph_fill
    with s(4) show ?thesis by simp
  next
    case Append_fallback
    with s(3) have "\<not> strategy_applies Underscore_fill doc p ?v"
      "\<not> strategy_applies Colon_fill doc p ?v"
      by (simp_all add: strategy_chain_def)
    with Append_fallback show ?thesis by (simp del: strategy_applies.simps)
  qed
  with f show ?thesis by blast
qed

text \<open>
  The paragraph \<open>A ___ B\<close> holds an underscore run, and no colon; it is the only
  paragraph. With the value \<open>___\<close> the replacement leaves the text as it was, and
  \<open>fill_paragraph\<close> goes on to the append fallback: an underscore run in the text alone
  does not make underscore fill the strategy that fires.
\<close>

definition doc_run_only :: document where
  "doc_run_only = \<lparr>paragraphs = [ustr ''A ___ B''], tables = []\<rparr>"

theorem paragraph_strategy_counterexample:
  "strip (paragraph_text doc_run_only 0) \<noteq> [] \<and>
   UNDERSCORE_RE_search (paragraph_text doc_run_only 0) = Some (ustr ''A '', ustr ''___'', ustr '' B'') \<and>
   fill_paragraph doc_run_only 0 (ustr ''___'')
     = Inr (True, set_paragraph_text doc_run_only 0 (ustr ''A ___ B ___''))"
  by code_simp

theorem paragraph_strategy_chain_witness:
  "strip (paragraph_text ex_doc 0) \<noteq> [] \<and> readable (paragraph_text ex_doc 0) \<and>
   92 \<notin> set (ustr ''Ana Popescu'') \<and> readable (ustr ''Ana Popescu'') \<and>
   strategy_applies Underscore_fill ex_doc 0 (ustr ''Ana Popescu'') \<and>
   fill_paragraph ex_doc 0 (ustr ''Ana Popescu'')
     = Inr (True, set_paragraph_text ex_doc 0 (ustr ''Full Name: Ana Popescu''))"
proof -
  have h1: "strip (paragraph_text ex_doc 0) \<noteq> []"
    by code_simp
  have h2: "readable (paragraph_text ex_doc 0)"
    by code_simp
  have h3: "92 \<notin> set (ustr ''Ana Popescu'')"
    by code_simp
  have h4: "readable (ustr ''Ana Popescu'')"
    by code_simp
  have h5: "strategy_applies Underscore_fill ex_doc 0 (ustr ''Ana Popescu'')"
    by code_simp
  have h6: "strategy_writes Underscore_fill ex_doc 0 (ustr ''Ana Popescu'')
      = (0, ustr ''Full Name: Ana Popescu'')"
    by code_simp
  have h7: "or_dash (ustr ''Ana Popescu'') = ustr ''Ana Popescu''"
    by code_simp
  have h8: "Underscore_fill \<in> set strategy_chain"
    "takeWhile (\<lambda>x. x \<noteq> Underscore_fill) strategy_chain = []"
    by (simp_all add: strategy_chain_def)
  from paragraph_strategy_chain[OF h1 h2 h3 h4] obtain d where
    d: "fill_paragraph ex_doc 0 (ustr ''Ana Popescu'') = Inr (True, d)"
      "\<forall>s \<in> set strategy_chain.
             strategy_applies s ex_doc 0 (ustr ''Ana Popescu'')
           \<and> (\<forall>s' \<in> set (takeWhile (\<lambda>x. x \<noteq> s) strategy_chain).
                \<not> strategy_applies s' ex_doc 0 (ustr ''Ana Popescu''))
           \<and> s \<noteq> Next_paragraph_fill
           \<longrightarrow> (\<exists>q t. strategy_writes s ex_doc 0 (ustr ''Ana Popescu'') = (q, t)
                  \<and> d = set_paragraph_text ex_doc q t)"
    unfolding h7 by blast
  from d(2)[rule_format, OF h8(1)] h5 h8(2) h6
  have "d = set_paragraph_text ex_doc 0 (ustr ''Full Name: Ana Popescu'')" by simp
  with d(1) h1 h2 h3 h4 h5 show ?thesis by simp
qed

section \<open>Underscore runs\<close>

text \<open>
  A text without a run of three underscores is returned as it is, whatever the value.
  For a value without a backslash, \<open>replace_underscores\<close> replaces the first run of
  three underscores or more, and only that: the text before the match holds no such run
  and does not end with an underscore, the match is the whole run, and the text after it
  is kept.
\<close>


lemma search_None_iff:
  "UNDERSCORE_RE_search s = None \<longleftrightarrow> \<not> str_in [UNDERSCORE, UNDERSCORE, UNDERSCORE] s"
proof (induction s)
  case Nil
  then show ?case by simp
next
  case (Cons c cs)
  have "3 \<le> length (takeWhile (\<lambda>d. d = UNDERSCORE) (c # cs))
      \<longleftrightarrow> prefix [UNDERSCORE, UNDERSCORE, UNDERSCORE] (c # cs)"
    by (cases cs; cases "tl cs") (auto simp: prefix_def)
  with Cons show ?case by (auto simp: Let_def)
qed

lemma takeWhile_append_le: "length (takeWhile P xs) \<le> length (takeWhile P (xs @ ys))"
  by (induction xs) auto

lemma search_before:
  "UNDERSCORE_RE_search s = Some (before, m, after) \<Longrightarrow>
     UNDERSCORE_RE_search before = None \<and> (before = [] \<or> last before \<noteq> UNDERSCORE)"
proof (induction s arbitrary: before)
  case Nil
  then show ?case by simp
next
  case (Cons c cs)
  let ?run = "takeWhile (\<lambda>d. d = UNDERSCORE) (c # cs)"
  show ?case
  proof (cases "3 \<le> length ?run")
    case True
    with Cons.prems show ?thesis by (auto simp: Let_def)
  next
    case False
    with Cons.prems obtain b' where
      r: "UNDERSCORE_RE_search cs = Some (b', m, after)" and b: "before = c # b'"
      by (auto simp: Let_def split: if_splits)
    from search_Some[OF r] have cs: "cs = b' @ m @ after" "3 \<le> length m" "set m \<subseteq> {UNDERSCORE}"
      by auto
    have tw: "length (takeWhile (\<lambda>d. d = UNDERSCORE) (c # b')) \<le> length ?run"
      unfolding cs(1) using takeWhile_append_le[of "\<lambda>d. d = UNDERSCORE" "c # b'" "m @ after"]
      by simp
    have 1: "UNDERSCORE_RE_search (c # b') = None"
      using Cons.IH[OF r] tw False by (simp add: Let_def)
    have 2: "last (c # b') \<noteq> UNDERSCORE"
    proof (cases "b' = []")
      case True
      have "c \<noteq> UNDERSCORE"
      proof
        assume "c = UNDERSCORE"
        then have "?run = c # takeWhile (\<lambda>d. d = UNDERSCORE) (m @ after)"
          using True cs(1) by simp
        moreover have "takeWhile (\<lambda>d. d = UNDERSCORE) (m @ after)
            = m @ takeWhile (\<lambda>d. d = UNDERSCORE) after"
          using cs(3) by (intro takeWhile_append2) auto
        ultimately show False using False cs(2) by simp
      qed
      with True show ?thesis by simp
    next
      case False
      with Cons.IH[OF r] show ?thesis by simp
    qed
    from 1 2 b show ?thesis by simp
  qed
qed

lemma replace_underscores_no_run:
  "UNDERSCORE_RE_search s = None \<Longrightarrow> replace_underscores s value = Inr s"
  by (simp add: replace_underscores_def)

lemma replace_underscores_first_run:
  assumes "92 \<notin> set value" "UNDERSCORE_RE_search s = Some (before, m, after)"
  shows "replace_underscores s value = Inr (before @ or_dash value @ after)
       \<and> s = before @ m @ after \<and> 3 \<le> length m \<and> set m \<subseteq> {UNDERSCORE}
       \<and> (after = [] \<or> hd after \<noteq> UNDERSCORE)
       \<and> (before = [] \<or> last before \<noteq> UNDERSCORE)
       \<and> \<not> str_in [UNDERSCORE, UNDERSCORE, UNDERSCORE] before"
  using replace_underscores_literal[OF assms(1), of s] search_Some[OF assms(2)]
    search_before[OF assms(2)] assms(2)
  by (simp add: search_None_iff)

text \<open>
  Claim C8: \<open>replace_underscores\<close> replaces exactly the first run of three underscores
  or more with the value. The source passes the value to \<open>UNDERSCORE_RE.sub\<close> as the
  replacement, where it is a template: for the text \<open>Folder: ___\<close> and the value
  \<open>C:\temp\<close> the result is \<open>Folder: C:\<close>, a tab character and \<open>emp\<close>, and for the value
  \<open>C:\Users\<close> the call raises instead of returning.
\<close>


theorem replace_underscores_template:
  "replace_underscores (ustr ''Folder: ___'') (ustr ''C:'' @ [92] @ ustr ''temp'')
     = Inr (ustr ''Folder: C:'' @ [9] @ ustr ''emp'') \<and>
   replace_underscores (ustr ''Folder: ___'') (ustr ''C:'' @ [92] @ ustr ''Users'')
     = Inl TemplateError"
  by code_simp

section \<open>The frame of a cell fill\<close>

text \<open>
  Writing a cell leaves the paragraphs and every other cell as they are. For a readable
  value without a backslash and a matched cell with a right neighbour whose text is
  readable, \<open>fill_table_cell_right\<close> returns \<open>True\<close> and writes that neighbour only.
\<close>

lemma paragraphs_set_cell_text: "paragraphs (set_cell_text doc a s) = paragraphs doc"
  by (cases a) (simp add: set_cell_text_def)

lemma cell_text_set_other: "b \<noteq> a \<Longrightarrow> cell_text (set_cell_text doc a s) b = cell_text doc b"
proof -
  obtain t r c where a: "a = (t, r, c)" by (cases a) auto
  obtain t' r' c' where b: "b = (t', r', c')" by (cases b) auto
  assume "b \<noteq> a"
  then show ?thesis
    unfolding a b
    by (cases "t < length (tables doc)"; cases "r < length (tables doc ! t)")
       (auto simp: set_cell_text_def cell_text_def nth_list_update list_update_beyond not_less)
qed

lemma fill_table_cell_right_literal:
  assumes "92 \<notin> set value" "readable value"
    and "table m = Some t" "cell_pos m = Some (r, c)"
    and "r < length (tables doc ! t)" "c + 1 < length (tables doc ! t ! r)"
    and "readable (cell_text doc (t, r, c + 1))"
  shows "\<exists>new. fill_table_cell_right doc m value = Inr (True, set_cell_text doc (t, r, c + 1) new)"
proof (cases "UNDERSCORE_RE_search (cell_text doc (t, r, c + 1))")
  case None
  have ra: "readable (rstrip (cell_text doc (t, r, c + 1)) @ 32 # or_dash value)"
    using readable_subset[OF assms(7) set_rstrip] readable_or_dash[OF assms(2)]
    by (simp add: readable_append readable_Cons xml_char_consts)
  show ?thesis
    using None assms(3-6) ra readable_or_dash[OF assms(2)]
    by (auto simp: fill_table_cell_right_def Let_def write_cell_readable)
next
  case (Some x)
  obtain b u a where x: "x = (b, u, a)" by (cases x) auto
  have rd: "readable (b @ or_dash value @ a)"
    using readable_run[OF Some[unfolded x] assms(7) readable_or_dash[OF assms(2)]] .
  show ?thesis
    using Some x assms(3-6) rd
    by (auto simp: fill_table_cell_right_def Let_def or_dash_idem write_cell_readable
        replace_underscores_literal[OF or_dash_literal[OF assms(1)]])
qed

text \<open>
  Claim C4: for a matched cell with a cell to its right, the cell fill writes only the
  right neighbour and returns \<open>True\<close>, and it reports \<open>True\<close> in every case. In the
  example document the anchor \<open>City\<close> resolves to the cell at row 1, column 0, whose
  right neighbour holds \<open>___\<close>. With the value \<open>C:\Users\<close> the value is read as a
  replacement template, as in claim C8, and the call raises instead of returning \<open>True\<close>.
\<close>


theorem cell_fill_template_error:
  "find_best_anchor ascii_lower ex_doc (ustr ''City'') (62 / 100)
     = Some (cell_match 1 (0, (0, 1, 0), 1, 0)) \<and>
   cell_text ex_doc (0, 1, 1) = ustr ''___'' \<and>
   fill_table_cell_right ex_doc (cell_match 1 (0, (0, 1, 0), 1, 0))
     (ustr ''C:'' @ [92] @ ustr ''Users'') = Inl TemplateError"
  by code_simp

section \<open>Content of the target\<close>

text \<open>
  The cell fallback, taken when the matched cell has no right neighbour, keeps the text
  of the matched cell for a readable value without a backslash: it replaces the first
  underscore run of that text or appends to it.
\<close>

lemma cell_fallback_keeps_text:
  assumes "92 \<notin> set value" "readable value"
    and "table m = Some t" "cell_pos m = Some (r, c)" "cell m = Some (t', r', c')"
    and "r < length (tables doc ! t)" "\<not> c + 1 < length (tables doc ! t ! r)"
    and "t' < length (tables doc)" "r' < length (tables doc ! t')"
      "c' < length (tables doc ! t' ! r')"
    and "readable (cell_text doc (t', r', c'))"
  shows "\<exists>new. fill_table_cell_right doc m value = Inr (True, set_cell_text doc (t', r', c') new)
       \<and> (new = rstrip (cell_text doc (t', r', c')) @ [32] @ or_dash value
           \<or> (\<exists>before run after.
                 UNDERSCORE_RE_search (cell_text doc (t', r', c')) = Some (before, run, after)
                 \<and> new = before @ or_dash value @ after))"
proof -
  let ?a = "(t', r', c')"
  let ?v = "or_dash value"
  have rv: "readable ?v" using assms(2) by (rule readable_or_dash)
  have ra: "readable (rstrip (cell_text doc ?a) @ 32 # ?v)"
    using readable_subset[OF assms(11) set_rstrip] rv
    by (simp add: readable_append readable_Cons xml_char_consts)
  show ?thesis
  proof (cases "UNDERSCORE_RE_search (cell_text doc ?a)")
    case None
    show ?thesis
      using None assms(3-7) cell_text_set[OF assms(8-10)] ra
      by (auto simp: fill_table_cell_right_def Let_def or_dash_idem set_cell_text_twice
          write_cell_readable[OF assms(11)] write_cell_readable
          replace_underscores_literal[OF or_dash_literal[OF assms(1)]])
  next
    case (Some x)
    obtain b u a where x: "x = (b, u, a)" by (cases x) auto
    have rd: "readable (b @ ?v @ a)"
      using readable_run[OF Some[unfolded x] assms(11) rv] .
    show ?thesis
      using Some x assms(3-7) cell_text_set[OF assms(8-10)] ra
      by (auto simp: fill_table_cell_right_def Let_def or_dash_idem set_cell_text_twice
          write_cell_readable[OF rd] write_cell_readable
          replace_underscores_literal[OF or_dash_literal[OF assms(1)]])
  qed
qed

definition doc_colon :: document where
  "doc_colon = \<lparr>paragraphs = [ustr ''Name: John ___''], tables = []\<rparr>"

text \<open>
  Claim C5: no fill reduces content that is neither an underscore run, a dash nor
  whitespace. The comment of the source at the colon rewrite says the same (\<open>if right
  already has something meaningful, don't overwrite blindly\<close>). For the paragraph
  \<open>Name: John ___\<close> and the value \<open>___\<close>, underscore fill leaves the text as it was,
  the colon rewrite then applies because the text after the colon holds an underscore
  run, and the paragraph becomes \<open>Name: ___\<close>: \<open>John\<close> is gone.
\<close>


theorem colon_fill_destroys_content:
  "fill_paragraph doc_colon 0 (ustr ''___'')
     = Inr (True, set_paragraph_text doc_colon 0 (ustr ''Name: ___'')) \<and>
   str_in (ustr ''John'') (paragraph_text doc_colon 0) \<and>
   \<not> str_in (ustr ''John'') (ustr ''Name: ___'')"
  by code_simp

theorem colon_fill_destroys_content_witness:
  "\<exists>d. fill_paragraph doc_colon 0 (ustr ''___'') = Inr (True, d)
      \<and> \<not> str_in (ustr ''John'') (paragraph_text d 0)"
proof -
  have "paragraph_text (set_paragraph_text doc_colon 0 (ustr ''Name: ___'')) 0
      = ustr ''Name: ___''"
    by (simp add: paragraph_text_def set_paragraph_text_def doc_colon_def)
  with colon_fill_destroys_content show ?thesis
    by (intro exI[of _ "set_paragraph_text doc_colon 0 (ustr ''Name: ___'')"]) simp
qed

section \<open>Unresolved anchors\<close>

text \<open>
  The loop over a list of fields is the loop over its first part, then the loop over the
  rest. The labels it records are labels of the input, in input order, after those
  recorded before. An anchor with an empty label is skipped, whatever the document: the
  loop goes on with the same document and the same \<open>not_found\<close>.
\<close>

lemma fill_loop_append:
  "fill_loop lower (xs @ ys) st =
     (case fill_loop lower xs st of Inl e \<Rightarrow> Inl e | Inr st' \<Rightarrow> fill_loop lower ys st')"
proof (induction lower xs st rule: fill_loop.induct)
  case (1 lower st)
  then show ?case by simp
next
  case (2 lower anchor "value" rest doc not_found)
  then show ?case
    by (simp split: option.splits sum.splits prod.splits)
qed

lemma fill_loop_not_found:
  "fill_loop lower fs (doc, nf) = Inr (doc', nf') \<Longrightarrow>
     \<exists>xs. nf' = nf @ xs \<and> subseq xs (map fst fs)"
proof (induction lower fs "(doc, nf)" arbitrary: doc nf rule: fill_loop.induct)
  case (1 lower)
  then show ?case by simp
next
  case (2 lower anchor "value" rest doc not_found)
  show ?case
  proof (cases "anchor = []")
    case True
    with 2 show ?thesis by (auto intro: subseq_Cons')
  next
    case False
    show ?thesis
    proof (cases "find_best_anchor lower doc anchor (62 / 100)")
      case None
      with False "2.prems" have "fill_loop lower rest (doc, not_found @ [anchor]) = Inr (doc', nf')"
        by simp
      from "2.hyps"(2)[OF False None this] obtain xs where
        "nf' = (not_found @ [anchor]) @ xs" "subseq xs (map fst rest)" by blast
      then show ?thesis by (intro exI[of _ "anchor # xs"]) simp
    next
      case (Some m)
      show ?thesis
      proof (cases "kind m = ''cell''")
        case True
        with False Some "2.prems" obtain ch d where
          d: "fill_table_cell_right doc m value = Inr (ch, d)"
            "fill_loop lower rest (d, not_found) = Inr (doc', nf')"
          by (auto split: sum.splits prod.splits)
        from "2.hyps"(3)[OF False Some True d(1) refl d(2)]
        show ?thesis by (auto intro: subseq_Cons')
      next
        case k: False
        with False Some "2.prems" obtain p ch d where
          d: "paragraph' m = Some p" "fill_paragraph doc p value = Inr (ch, d)"
            "fill_loop lower rest (d, not_found) = Inr (doc', nf')"
          by (auto split: sum.splits prod.splits option.splits)
        from "2.hyps"(4)[OF False Some k d(1) d(2) refl d(3)]
        show ?thesis by (auto intro: subseq_Cons')
      qed
    qed
  qed
qed

lemma fill_loop_unresolved:
  "anchor \<noteq> [] \<Longrightarrow> find_best_anchor lower doc anchor (62 / 100) = None \<Longrightarrow>
   fill_loop lower ((anchor, value) # rest) (doc, nf) = fill_loop lower rest (doc, nf @ [anchor])"
  by simp

lemma fill_loop_empty_label:
  "fill_loop lower (([], value) # rest) (doc, nf) = fill_loop lower rest (doc, nf)"
  by simp

text \<open>
  Claim C6, as the code has it. Let an anchor with a non-empty label follow the fields
  \<open>pre\<close> in the input, and let its resolution fail on the document \<open>doc1\<close> that the loop
  has reached after \<open>pre\<close>. Then the loop appends the label to \<open>not_found\<close>, leaves the
  document as it is, raises nothing for this anchor and goes on with the remaining
  fields \<open>post\<close> from the same document, so that what \<open>pre\<close> has changed stays. The
  labels of \<open>not_found\<close> are in input order: those recorded during \<open>pre\<close>, this label,
  those recorded during \<open>post\<close>. (An anchor with an empty label is skipped before it is
  resolved, and is not recorded.)
\<close>


theorem unresolved_anchor_recorded:
  assumes "anchor \<noteq> []"
    and "fill_loop lower pre (doc0, nf0) = Inr (doc1, nf1)"
    and "find_best_anchor lower doc1 anchor (62 / 100) = None"
  shows "fill_loop lower (pre @ (anchor, value) # post) (doc0, nf0)
           = fill_loop lower post (doc1, nf1 @ [anchor])
       \<and> (\<forall>doc' nf'. fill_loop lower post (doc1, nf1 @ [anchor]) = Inr (doc', nf') \<longrightarrow>
            (\<exists>xs ys. nf' = nf0 @ xs @ [anchor] @ ys
               \<and> subseq xs (map fst pre) \<and> subseq ys (map fst post)))"
proof -
  have 1: "fill_loop lower (pre @ (anchor, value) # post) (doc0, nf0)
           = fill_loop lower post (doc1, nf1 @ [anchor])"
    using assms by (simp add: fill_loop_append)
  from fill_loop_not_found[OF assms(2)] obtain xs where
    xs: "nf1 = nf0 @ xs" "subseq xs (map fst pre)" by blast
  have "\<exists>xs ys. nf' = nf0 @ xs @ [anchor] @ ys
               \<and> subseq xs (map fst pre) \<and> subseq ys (map fst post)"
    if "fill_loop lower post (doc1, nf1 @ [anchor]) = Inr (doc', nf')" for doc' nf'
  proof -
    from fill_loop_not_found[OF that] obtain ys where
      "nf' = (nf1 @ [anchor]) @ ys" "subseq ys (map fst post)" by blast
    with xs show ?thesis by auto
  qed
  with 1 show ?thesis by blast
qed

text \<open>
  The resolution of the empty label fails on the example document, as on every
  document, and \<open>fill_docx\<close> does not record it: \<open>not_found\<close> stays empty.
\<close>


theorem empty_anchor_not_recorded:
  "find_best_anchor ascii_lower ex_doc [] (62 / 100) = None \<and>
   fill_docx ascii_lower ex_doc [([], ustr ''x'')] = Inr (ex_doc, [])"
  by code_simp

theorem unresolved_anchor_recorded_witness:
  "ustr ''Passport'' \<noteq> [] \<and>
   fill_loop ascii_lower [(ustr ''Full Name'', ustr ''Ana Popescu'')] (ex_doc, [])
     = Inr (set_paragraph_text ex_doc 0 (ustr ''Full Name: Ana Popescu''), []) \<and>
   find_best_anchor ascii_lower (set_paragraph_text ex_doc 0 (ustr ''Full Name: Ana Popescu''))
     (ustr ''Passport'') (62 / 100) = None \<and>
   fill_loop ascii_lower
     ([(ustr ''Full Name'', ustr ''Ana Popescu'')] @ (ustr ''Passport'', ustr ''X1'') # [])
     (ex_doc, [])
     = Inr (set_paragraph_text ex_doc 0 (ustr ''Full Name: Ana Popescu''), [ustr ''Passport''])"
proof -
  have h1: "ustr ''Passport'' \<noteq> []"
    by code_simp
  have h2: "fill_loop ascii_lower [(ustr ''Full Name'', ustr ''Ana Popescu'')] (ex_doc, [])
     = Inr (set_paragraph_text ex_doc 0 (ustr ''Full Name: Ana Popescu''), [])"
    by code_simp
  have h3: "find_best_anchor ascii_lower
     (set_paragraph_text ex_doc 0 (ustr ''Full Name: Ana Popescu''))
     (ustr ''Passport'') (62 / 100) = None"
    by code_simp
  from unresolved_anchor_recorded[OF h1 h2 h3, of "ustr ''X1''" "[]"] h1 h2 h3
  show ?thesis by simp
qed

section \<open>The range of the similarity\<close>

text \<open>
  \<open>sim\<close> is between 0 and 1. It is 0 when one input is empty, and when exactly one of
  the inputs is empty after normalisation. When both inputs are non-empty and both are
  empty after normalisation, the guard of \<open>sim\<close>, which tests the inputs before they are
  normalised, lets them through, and \<open>SequenceMatcher\<close> compares two empty strings, whose
  ratio is 1.
\<close>


lemma sim_range: "0 \<le> sim lower a b \<and> sim lower a b \<le> 1"
  using ratio_range by (simp add: sim_def)

lemma ratio_empty_left: "b \<noteq> [] \<Longrightarrow> ratio [] b = 0"
proof -
  have "matches_of (get_matching_blocks [] b) \<le> 0"
    using blocks_loop_matches[of "[]" b "[(0, 0, 0, length b)]" "[]"]
    by (simp add: get_matching_blocks_def room_def matches_of_def)
  then show "b \<noteq> [] \<Longrightarrow> ratio [] b = 0"
    by (simp add: ratio_def Let_def matches_of_def)
qed

lemma ratio_empty_right: "a \<noteq> [] \<Longrightarrow> ratio a [] = 0"
proof -
  have "matches_of (get_matching_blocks a []) \<le> 0"
    using blocks_loop_matches[of a "[]" "[(0, length a, 0, 0)]" "[]"]
    by (simp add: get_matching_blocks_def room_def matches_of_def)
  then show "a \<noteq> [] \<Longrightarrow> ratio a [] = 0"
    by (simp add: ratio_def Let_def matches_of_def)
qed

lemma sim_one_blank:
  "(norm_str lower a = []) \<noteq> (norm_str lower b = []) \<Longrightarrow> sim lower a b = 0"
  by (auto simp: sim_def ratio_empty_left ratio_empty_right)

lemma ratio_empty_both: "ratio [] [] = 1"
  by code_simp

lemma sim_both_blank:
  "a \<noteq> [] \<Longrightarrow> b \<noteq> [] \<Longrightarrow> norm_str lower a = [] \<Longrightarrow> norm_str lower b = [] \<Longrightarrow>
   sim lower a b = 1"
  by (simp add: sim_def ratio_empty_both)

text \<open>
  Claim C9, as the code has it. \<open>sim\<close> is in \<open>[0, 1]\<close>. It is 0 whenever an input is
  empty after normalisation, also for an input made of whitespace only, unless both
  inputs are non-empty and both are empty after normalisation: the guard of \<open>sim\<close> tests
  the inputs as they are given, so these two pass it, and the ratio of two empty
  strings, which is 1, is returned.
\<close>

theorem sim_range_zero:
  "0 \<le> sim lower a b \<and> sim lower a b \<le> 1 \<and>
   ((norm_str lower a = [] \<or> norm_str lower b = []) \<and>
    (a = [] \<or> b = [] \<or> norm_str lower a \<noteq> [] \<or> norm_str lower b \<noteq> [])
      \<longrightarrow> sim lower a b = 0) \<and>
   (a \<noteq> [] \<and> b \<noteq> [] \<and> norm_str lower a = [] \<and> norm_str lower b = []
      \<longrightarrow> sim lower a b = 1)"
proof -
  have z: "sim lower a b = 0"
    if "norm_str lower a = [] \<or> norm_str lower b = []"
      "a = [] \<or> b = [] \<or> norm_str lower a \<noteq> [] \<or> norm_str lower b \<noteq> []"
  proof (cases "a = [] \<or> b = []")
    case True
    then show ?thesis by (simp add: sim_def)
  next
    case False
    with that have "(norm_str lower a = []) \<noteq> (norm_str lower b = [])" by blast
    then show ?thesis by (rule sim_one_blank)
  qed
  from z sim_range[of lower a b] sim_both_blank[of a b lower] show ?thesis by blast
qed

text \<open>
  For two inputs that are one space each, both are empty after normalisation and \<open>sim\<close>
  is 1, not 0.
\<close>

theorem sim_whitespace_only:
  "ustr '' '' \<noteq> [] \<and> norm_str ascii_lower (ustr '' '') = [] \<and>
   sim ascii_lower (ustr '' '') (ustr '' '') = 1"
  by code_simp

theorem sim_range_zero_witness:
  "norm_str ascii_lower (ustr '' '') = [] \<and> norm_str ascii_lower (ustr ''abc'') \<noteq> [] \<and>
   sim ascii_lower (ustr '' '') (ustr ''abc'') = 0"
proof -
  have h: "norm_str ascii_lower (ustr '' '') = []" "norm_str ascii_lower (ustr ''abc'') \<noteq> []"
    by code_simp+
  from sim_range_zero[of ascii_lower "ustr '' ''" "ustr ''abc''"] h show ?thesis by simp
qed

end
